theory Spec2Isabelle
  imports Main
begin

section \<open>Data model\<close>

text \<open>
  The parsed expression of Go's \<^verbatim>\<open>regexp/syntax\<close> package: the struct
  \<^verbatim>\<open>syntax.Regexp\<close> with the fields the repository and the matcher read
  (\<^verbatim>\<open>Op\<close>, \<^verbatim>\<open>Flags\<close>, \<^verbatim>\<open>Sub\<close>, \<^verbatim>\<open>Rune\<close>, \<^verbatim>\<open>Min\<close>, \<^verbatim>\<open>Max\<close>, \<^verbatim>\<open>Cap\<close>,
  \<^verbatim>\<open>Name\<close>).
  A rune is modelled as a \<^typ>\<open>char\<close> and a Go string as the list of its runes: texts
  are taken to be ASCII, where the bytes of a string and its runes are the same.
  For \<^verbatim>\<open>OpCharClass\<close> the field \<^verbatim>\<open>Rune\<close> holds the ranges as pairs lo, hi, as in Go.
\<close>

datatype Op =
    OpNoMatch | OpEmptyMatch | OpLiteral | OpCharClass | OpAnyCharNotNL | OpAnyChar
  | OpBeginLine | OpEndLine | OpBeginText | OpEndText | OpWordBoundary | OpNoWordBoundary
  | OpCapture | OpStar | OpPlus | OpQuest | OpRepeat | OpConcat | OpAlternate

datatype Flag = FoldCase | NonGreedy

datatype syntax_Regexp =
  Node (Op: Op) (Flags: "Flag set") (Sub: "syntax_Regexp list") (Rune: string)
       (Min: int) (Max: int) (Cap: nat) (Name: string)

text \<open>
  \<^verbatim>\<open>url.Values\<close> is \<^verbatim>\<open>map[string][]string\<close>. Reading a missing key gives the nil
  slice, of length 0; \<^verbatim>\<open>Add\<close> appends to the slice of the key.
\<close>

type_synonym Values = "string \<rightharpoonup> string list"

definition lookup :: "Values \<Rightarrow> string \<Rightarrow> string list" where
  "lookup values key = (case values key of None \<Rightarrow> [] | Some vs \<Rightarrow> vs)"

definition Add :: "Values \<Rightarrow> string \<Rightarrow> string \<Rightarrow> Values" where
  "Add values key val = values(key \<mapsto> lookup values key @ [val])"

text \<open>
  The errors of the package are built with \<^verbatim>\<open>fmt.Errorf\<close>; each constructor stands
  for one message and carries the operands of its format:
  \<^item> \<open>MissingVariable key n\<close>: "Missing key %q to revert the regexp (expected a total
    of %d variables)";
  \<^item> \<open>RevertMismatch s\<close>: "Resulting string doesn't match the regexp: %q";
  \<^item> \<open>UnbalancedBraces s\<close>: "mux: unbalanced braces in %q";
  \<^item> \<open>MalformedPlaceholder s\<close>: "missing name or pattern in %q";
  \<^item> \<open>SyntaxError s\<close>: the error of the expression parser;
  \<^item> \<open>IndexOutOfRange\<close>: the run-time panic of an index out of range.
\<close>

datatype error =
    MissingVariable string nat
  | RevertMismatch string
  | UnbalancedBraces string
  | MalformedPlaceholder string
  | SyntaxError string
  | IndexOutOfRange

text \<open>The struct \<^verbatim>\<open>template\<close> of \<^verbatim>\<open>reverse.go\<close>: the state of the tree walk.\<close>

record template =
  buffer :: string
  groups :: "string list"
  indices :: "int list"
  index :: int
  level :: int

section \<open>The tree walk\<close>

text \<open>
  \<^verbatim>\<open>(*template).write\<close>. A literal is copied at level 0 only, a percent sign doubled;
  a capture counts its index and, at level 1, records its name and index and writes
  \<^verbatim>\<open>%s\<close>; a concatenation walks its children; every other operator writes nothing
  and is not descended into.
\<close>

definition write_runes :: "string \<Rightarrow> string" where
  "write_runes rs = concat (map (\<lambda>r. if r = CHR ''%'' then [r, CHR ''%''] else [r]) rs)"

fun "write" :: "syntax_Regexp \<Rightarrow> template \<Rightarrow> template"
  and write_subs :: "syntax_Regexp list \<Rightarrow> template \<Rightarrow> template" where
  "write (Node op fl subs runes mn mx cp name) t =
     (case op of
        OpLiteral \<Rightarrow>
          (if level t = 0 then t\<lparr>buffer := buffer t @ write_runes runes\<rparr> else t)
      | OpCapture \<Rightarrow>
          (let t1 = t\<lparr>level := level t + 1\<rparr>;
               t2 = t1\<lparr>index := index t1 + 1\<rparr>;
               t3 = (if level t2 = 1
                     then t2\<lparr>groups := groups t2 @ [name],
                             indices := indices t2 @ [index t2],
                             buffer := buffer t2 @ ''%s''\<rparr>
                     else t2);
               t4 = write_subs subs t3
           in t4\<lparr>level := level t4 - 1\<rparr>)
      | OpConcat \<Rightarrow> write_subs subs t
      | _ \<Rightarrow> t)"
| "write_subs [] t = t"
| "write_subs (sub # subs) t = write_subs subs (write sub t)"

section \<open>Formatting\<close>

text \<open>
  \<^verbatim>\<open>fmt.Sprintf\<close> with string operands, on the verbs that \<^verbatim>\<open>write\<close> emits:
  \<^verbatim>\<open>%%\<close> prints a percent sign, \<^verbatim>\<open>%s\<close> prints the next operand. A missing operand
  prints \<^verbatim>\<open>%!s(MISSING)\<close>, a percent sign at the end \<^verbatim>\<open>%!(NOVERB)\<close> and operands left
  over \<^verbatim>\<open>%!(EXTRA string=..., ...)\<close>, as the package documents. Flags, widths and the
  other verbs are outside the model: any other character after the percent sign is
  printed as fmt prints an unknown verb.
\<close>

fun extra_args :: "string list \<Rightarrow> string" where
  "extra_args [] = []"
| "extra_args [a] = ''string='' @ a"
| "extra_args (a # b # bs) = ''string='' @ a @ '', '' @ extra_args (b # bs)"

fun Sprintf :: "string \<Rightarrow> string list \<Rightarrow> string" where
  "Sprintf [] [] = []"
| "Sprintf [] (a # as) = ''%!(EXTRA '' @ extra_args (a # as) @ '')''"
| "Sprintf (c # fs) as =
     (if c \<noteq> CHR ''%'' then c # Sprintf fs as
      else (case fs of
              [] \<Rightarrow> ''%!(NOVERB)'' @ Sprintf [] as
            | v # fs' \<Rightarrow>
                if v = CHR ''%'' then CHR ''%'' # Sprintf fs' as
                else (case as of
                        [] \<Rightarrow> ''%!'' @ [v] @ ''(MISSING)'' @ Sprintf fs' []
                      | a # as' \<Rightarrow>
                          if v = CHR ''s'' then a @ Sprintf fs' as'
                          else ''%!'' @ [v] @ ''(string='' @ a @ '')'' @ Sprintf fs' as')))"

section \<open>The reversible expression\<close>

text \<open>
  The struct \<^verbatim>\<open>Regexp\<close>. The compiled expression is represented by the parsed tree,
  which the matcher below interprets.
\<close>

record Regexp =
  compiled :: syntax_Regexp
  template :: string
  groups :: "string list"
  indices :: "int list"

text \<open>
  \<^verbatim>\<open>CompileRegexp\<close>. The expression parser of the Go library is a parameter: it
  returns an error or the tree of the pattern. \<open>compile_tree\<close> is the part of the
  function that follows a successful parse.
\<close>

definition new_template :: template where
  "new_template = \<lparr>buffer = [], groups = [], indices = [], index = 0, level = 0\<rparr>"

definition compile_tree :: "syntax_Regexp \<Rightarrow> Regexp" where
  "compile_tree re =
     (let tpl = write re new_template
      in \<lparr>compiled = re, template = buffer tpl,
           groups = template.groups tpl, indices = template.indices tpl\<rparr>)"

definition CompileRegexp :: "(string \<Rightarrow> error + syntax_Regexp) \<Rightarrow> string \<Rightarrow> error + Regexp" where
  "CompileRegexp parse pattern =
     (case parse pattern of
        Inl err \<Rightarrow> Inl err
      | Inr re \<Rightarrow> Inr (compile_tree re))"

text \<open>
  \<^verbatim>\<open>Revert\<close>. The loop over the groups pops the front of the bag entry of each
  group's key; the bag is a Go map, changed in place, so the model returns it beside
  the result. On a missing value the function returns at once, with the bag as it is
  at that point.
\<close>

fun Revert_loop :: "string list \<Rightarrow> nat \<Rightarrow> string list \<Rightarrow> Values \<Rightarrow> (error + string list) \<times> Values" where
  "Revert_loop [] n vars values = (Inr vars, values)"
| "Revert_loop (v # vs) n vars values =
     (case lookup values v of
        [] \<Rightarrow> (Inl (MissingVariable v n), values)
      | x # xs \<Rightarrow> Revert_loop vs n (vars @ [x]) (values(v \<mapsto> xs)))"

definition Revert :: "Regexp \<Rightarrow> Values \<Rightarrow> (error + string) \<times> Values" where
  "Revert r values =
     (case Revert_loop (Regexp.groups r) (length (Regexp.groups r)) [] values of
        (Inl err, values') \<Rightarrow> (Inl err, values')
      | (Inr vars, values') \<Rightarrow> (Inr (Sprintf (template r) vars), values'))"

section \<open>Parsed trees of the patterns used below\<close>

text \<open>
  The expression parser is not part of the repository. Each tree below is the one that
  \<^verbatim>\<open>syntax.Parse\<close> returns, with the flags \<^verbatim>\<open>syntax.Perl\<close>, for the pattern named with
  it. The constructors build the nodes it uses: a literal run, a capture with its
  index and name, a concatenation, a character class given by its ranges, the
  repetitions and the two text anchors.
\<close>

definition lit :: "string \<Rightarrow> syntax_Regexp" where
  "lit s = Node OpLiteral {} [] s 0 0 0 []"

definition cap :: "nat \<Rightarrow> string \<Rightarrow> syntax_Regexp \<Rightarrow> syntax_Regexp" where
  "cap i name sub = Node OpCapture {} [sub] [] 0 0 i name"

definition cat :: "syntax_Regexp list \<Rightarrow> syntax_Regexp" where
  "cat subs = Node OpConcat {} subs [] 0 0 0 []"

definition cc :: "string \<Rightarrow> syntax_Regexp" where
  "cc ranges = Node OpCharClass {} [] ranges 0 0 0 []"

definition plus :: "syntax_Regexp \<Rightarrow> syntax_Regexp" where
  "plus sub = Node OpPlus {} [sub] [] 0 0 0 []"

definition quest :: "syntax_Regexp \<Rightarrow> syntax_Regexp" where
  "quest sub = Node OpQuest {} [sub] [] 0 0 0 []"

definition bot :: syntax_Regexp where
  "bot = Node OpBeginText {} [] [] 0 0 0 []"

definition eot :: syntax_Regexp where
  "eot = Node OpEndText {} [] [] 0 0 0 []"

text \<open>The class \<^verbatim>\<open>\d\<close> is the range 0-9, the class \<^verbatim>\<open>[a-z]\<close> the range a-z.\<close>

definition digit :: syntax_Regexp where
  "digit = cc ''09''"

definition lower :: syntax_Regexp where
  "lower = cc ''az''"



text \<open>The tree of \<^verbatim>\<open>^7(?P<foo>\d)(\d)0$\<close>.\<close>

definition re_7_foo_pos_0 :: syntax_Regexp where
  "re_7_foo_pos_0 = cat [bot, lit ''7'', cap 1 ''foo'' digit, cap 2 [] digit, lit ''0'', eot]"

text \<open>
  The tree of the pattern of the repository's group test,
  \<^verbatim>\<open>^1(\d+([a-z]+)(\d+([a-z]+)))(?P<foo>\d+)3([a-z]+(\d+))(?P<bar>\d+)$\<close>.
\<close>

definition re_group_test :: syntax_Regexp where
  "re_group_test =
     cat [bot, lit ''1'',
          cap 1 [] (cat [plus digit, cap 2 [] (plus lower),
                         cap 3 [] (cat [plus digit, cap 4 [] (plus lower)])]),
          cap 5 ''foo'' (plus digit), lit ''3'',
          cap 6 [] (cat [plus lower, cap 7 [] (plus digit)]),
          cap 8 ''bar'' (plus digit), eot]"

text \<open>The tree of \<^verbatim>\<open>^1(\d+)3$\<close>.\<close>

definition re_1_pos_3 :: syntax_Regexp where
  "re_1_pos_3 = cat [bot, lit ''1'', cap 1 [] (plus digit), lit ''3'', eot]"

text \<open>
  The tree of \<^verbatim>\<open>^/a[/]?$\<close>: the parser turns a class of one character into a literal.
\<close>

definition re_strict_a :: syntax_Regexp where
  "re_strict_a = cat [bot, lit ''/a'', quest (lit ''/''), eot]"

text \<open>The tree of \<^verbatim>\<open>a(b)\<close>.\<close>

definition re_a_group_b :: syntax_Regexp where
  "re_a_group_b = cat [lit ''a'', cap 1 [] (lit ''b'')]"

section \<open>The template as the specification describes it\<close>

text \<open>
  The specification describes the reverse template as a sequence of segments, each a
  literal run or a placeholder, and the group list as the placeholders' names and group
  indices. \<open>outline\<close> reads the segments off the tree without walking into a capturing
  group: a literal gives a literal segment, a capturing group one placeholder, a
  concatenation the segments of its children, any other operator nothing. The group
  index of a placeholder is one more than the number of capturing groups the walk has
  entered before it, which \<open>visited_caps\<close> counts.
\<close>

datatype segment = Literal string | Placeholder string int

fun visited_caps :: "syntax_Regexp \<Rightarrow> int"
  and visited_caps_list :: "syntax_Regexp list \<Rightarrow> int" where
  "visited_caps (Node op fl subs runes mn mx cp name) =
     (case op of
        OpCapture \<Rightarrow> 1 + visited_caps_list subs
      | OpConcat \<Rightarrow> visited_caps_list subs
      | _ \<Rightarrow> 0)"
| "visited_caps_list [] = 0"
| "visited_caps_list (sub # subs) = visited_caps sub + visited_caps_list subs"

fun outline :: "syntax_Regexp \<Rightarrow> int \<Rightarrow> segment list"
  and outline_list :: "syntax_Regexp list \<Rightarrow> int \<Rightarrow> segment list" where
  "outline (Node op fl subs runes mn mx cp name) idx =
     (case op of
        OpLiteral \<Rightarrow> [Literal runes]
      | OpCapture \<Rightarrow> [Placeholder name (idx + 1)]
      | OpConcat \<Rightarrow> outline_list subs idx
      | _ \<Rightarrow> [])"
| "outline_list [] idx = []"
| "outline_list (sub # subs) idx = outline sub idx @ outline_list subs (idx + visited_caps sub)"

text \<open>
  The format string of a segment list (a percent sign of a literal doubled), the names
  and the group indices of its placeholders, and its rendering: each placeholder is
  replaced by the next value, literals pass through unchanged, and the number of
  values must be the number of placeholders.
\<close>

fun fmt_of :: "segment list \<Rightarrow> string" where
  "fmt_of [] = []"
| "fmt_of (Literal s # segs) = write_runes s @ fmt_of segs"
| "fmt_of (Placeholder n i # segs) = ''%s'' @ fmt_of segs"

fun seg_names :: "segment list \<Rightarrow> string list" where
  "seg_names [] = []"
| "seg_names (Literal s # segs) = seg_names segs"
| "seg_names (Placeholder n i # segs) = n # seg_names segs"

fun seg_indices :: "segment list \<Rightarrow> int list" where
  "seg_indices [] = []"
| "seg_indices (Literal s # segs) = seg_indices segs"
| "seg_indices (Placeholder n i # segs) = i # seg_indices segs"

fun render :: "segment list \<Rightarrow> string list \<Rightarrow> string option" where
  "render [] [] = Some []"
| "render [] (v # vals) = None"
| "render (Literal s # segs) vals = map_option ((@) s) (render segs vals)"
| "render (Placeholder n i # segs) [] = None"
| "render (Placeholder n i # segs) (v # vals) = map_option ((@) v) (render segs vals)"

text \<open>
  The number of placeholders of a format string: the \<^verbatim>\<open>%s\<close> verbs, a percent sign
  taking the character after it as its verb.
\<close>

fun placeholders :: "string \<Rightarrow> nat" where
  "placeholders [] = 0"
| "placeholders [c] = 0"
| "placeholders (c # d # fs) =
     (if c = CHR ''%'' then (if d = CHR ''s'' then 1 else 0) + placeholders fs
      else placeholders (d # fs))"

text \<open>
  The course of the loop of \<^verbatim>\<open>Revert\<close> in terms of the bag it starts from. Group
  \<open>k\<close> finds its key exhausted when the bag holds no more values under the key than
  the groups before \<open>k\<close> with the same key have popped; otherwise it pops the value at
  that position. After the groups \<open>gs\<close> have popped, every key among them has lost as
  many values from the front as groups bear it.
\<close>

definition exhausted :: "string list \<Rightarrow> Values \<Rightarrow> nat \<Rightarrow> bool" where
  "exhausted gs bag k \<longleftrightarrow> length (lookup bag (gs ! k)) \<le> count_list (take k gs) (gs ! k)"

definition popped :: "string list \<Rightarrow> Values \<Rightarrow> nat \<Rightarrow> string" where
  "popped gs bag k = lookup bag (gs ! k) ! count_list (take k gs) (gs ! k)"

definition consumed :: "string list \<Rightarrow> Values \<Rightarrow> Values" where
  "consumed gs bag =
     (\<lambda>key. if key \<in> set gs then Some (drop (count_list gs key) (lookup bag key)) else bag key)"

text \<open>
  What the walk adds to its state at level 0: the format of the segments, the names and
  indices of their placeholders, and the number of groups entered.
\<close>

definition emit :: "template \<Rightarrow> segment list \<Rightarrow> int \<Rightarrow> template" where
  "emit t segs n =
     t\<lparr>buffer := buffer t @ fmt_of segs,
       template.groups := template.groups t @ seg_names segs,
       template.indices := template.indices t @ seg_indices segs,
       index := index t + n\<rparr>"

section \<open>The brace pattern translator\<close>

text \<open>
  \<^verbatim>\<open>braceIndices\<close>: the loop over the bytes of the string with its three variables, the
  position \<open>i\<close>, the nesting level and the start of the open first-level region.
\<close>

fun braceIndices_loop :: "string \<Rightarrow> string \<Rightarrow> int \<Rightarrow> int \<Rightarrow> int \<Rightarrow> int list \<Rightarrow> error + int list" where
  "braceIndices_loop s [] i lvl idx idxs =
     (if lvl \<noteq> 0 then Inl (UnbalancedBraces s) else Inr idxs)"
| "braceIndices_loop s (c # cs) i lvl idx idxs =
     (if c = CHR ''{'' then
        (if lvl + 1 = 1 then braceIndices_loop s cs (i + 1) (lvl + 1) i idxs
         else braceIndices_loop s cs (i + 1) (lvl + 1) idx idxs)
      else if c = CHR ''}'' then
        (if lvl - 1 = 0 then braceIndices_loop s cs (i + 1) (lvl - 1) idx (idxs @ [idx, i + 1])
         else if lvl - 1 < 0 then Inl (UnbalancedBraces s)
         else braceIndices_loop s cs (i + 1) (lvl - 1) idx idxs)
      else braceIndices_loop s cs (i + 1) lvl idx idxs)"

definition braceIndices :: "string \<Rightarrow> error + int list" where
  "braceIndices s = braceIndices_loop s s 0 0 0 []"

text \<open>
  The slice expression \<^verbatim>\<open>s[lo:hi]\<close>, which panics out of range; the bytes that
  \<^verbatim>\<open>regexp.QuoteMeta\<close> escapes with a backslash; \<^verbatim>\<open>strings.SplitN(s, ":", 2)\<close>, which cuts
  at the first colon; and \<^verbatim>\<open>strings.HasSuffix\<close>.
\<close>

definition slice :: "string \<Rightarrow> int \<Rightarrow> int \<Rightarrow> error + string" where
  "slice s lo hi =
     (if 0 \<le> lo \<and> lo \<le> hi \<and> hi \<le> int (length s)
      then Inr (take (nat (hi - lo)) (drop (nat lo) s))
      else Inl IndexOutOfRange)"

definition specialBytes :: string where
  "specialBytes = CHR 0x5C # ''.+*?()|[]{}^$''"

definition QuoteMeta :: "string \<Rightarrow> string" where
  "QuoteMeta s = concat (map (\<lambda>c. if c \<in> set specialBytes then [CHR 0x5C, c] else [c]) s)"

definition SplitN2 :: "string \<Rightarrow> string list" where
  "SplitN2 s =
     (if CHR '':'' \<in> set s
      then [takeWhile (\<lambda>c. c \<noteq> CHR '':'') s, tl (dropWhile (\<lambda>c. c \<noteq> CHR '':'') s)]
      else [s])"

definition HasSuffix :: "string \<Rightarrow> string \<Rightarrow> bool" where
  "HasSuffix s suffix \<longleftrightarrow>
     length suffix \<le> length s \<and> drop (length s - length suffix) s = suffix"

text \<open>
  \<^verbatim>\<open>gorillaPattern\<close>. The loop takes the brace regions two indices at a time and appends
  the quoted text before the region and the named group of the region; the function
  then appends the quoted rest, the optional slash and the end anchor.
\<close>

fun gorillaPattern_loop :: "string \<Rightarrow> string \<Rightarrow> int list \<Rightarrow> int \<Rightarrow> string \<Rightarrow> error + (string \<times> int)" where
  "gorillaPattern_loop tpl defaultPattern [] end pattern = Inr (pattern, end)"
| "gorillaPattern_loop tpl defaultPattern [lo] end pattern =
     (case slice tpl end lo of
        Inl err \<Rightarrow> Inl err
      | Inr raw \<Rightarrow> Inl IndexOutOfRange)"
| "gorillaPattern_loop tpl defaultPattern (lo # hi # idxs) end pattern =
     (case slice tpl end lo of
        Inl err \<Rightarrow> Inl err
      | Inr raw \<Rightarrow>
          (case slice tpl (lo + 1) (hi - 1) of
             Inl err \<Rightarrow> Inl err
           | Inr inner \<Rightarrow>
               (let parts = SplitN2 inner;
                    name = hd parts;
                    patt = (if length parts = 2 then parts ! 1 else defaultPattern)
                in if name = [] \<or> patt = [] then
                     (case slice tpl lo hi of
                        Inl err \<Rightarrow> Inl err
                      | Inr region \<Rightarrow> Inl (MalformedPlaceholder region))
                   else gorillaPattern_loop tpl defaultPattern idxs hi
                          (pattern @ QuoteMeta raw @ ''(?P<'' @ name @ ''>'' @ patt @ '')''))))"

definition gorillaPattern :: "string \<Rightarrow> bool \<Rightarrow> bool \<Rightarrow> bool \<Rightarrow> error + string" where
  "gorillaPattern tpl matchHost prefixMatch strictSlash =
     (case braceIndices tpl of
        Inl err \<Rightarrow> Inl err
      | Inr idxs \<Rightarrow>
          (let defaultPattern = (if matchHost then ''[^.]+'' else ''[^/]+'');
               prefixMatch' = (if matchHost then False else prefixMatch);
               strictSlash' = (if matchHost then False else if prefixMatch then False else strictSlash);
               tpl' = (if \<not> matchHost \<and> strictSlash' \<and> HasSuffix tpl ''/''
                       then take (length tpl - 1) tpl else tpl)
           in case gorillaPattern_loop tpl' defaultPattern idxs 0 ''^'' of
                Inl err \<Rightarrow> Inl err
              | Inr (pattern, end) \<Rightarrow>
                  (case slice tpl' end (int (length tpl')) of
                     Inl err \<Rightarrow> Inl err
                   | Inr raw \<Rightarrow>
                       Inr (pattern @ QuoteMeta raw
                            @ (if strictSlash' then ''[/]?'' else [])
                            @ (if \<not> prefixMatch' then ''$'' else [])))))"

text \<open>
  The nesting depth of a text as the specification counts it: opening braces minus
  closing braces.
\<close>

definition depth :: "string \<Rightarrow> int" where
  "depth p = int (count_list p (CHR ''{'')) - int (count_list p (CHR ''}''))"

section \<open>The matcher\<close>

text \<open>
  The matcher of Go's \<^verbatim>\<open>regexp\<close> package is not part of the repository. It is modelled
  by a backtracking interpreter of the parsed tree with the semantics the package
  documents: among the matches that begin leftmost, the one a backtracking search finds
  first. A state of the search is a position in the text and the capture registers,
  which hold the bounds of each group. \<open>ms\<close> lists, in order of preference, the states
  in which an expression can end when it starts in a given state; \<open>ms_seq\<close> does so for
  a sequence, \<open>ms_alt\<close> for alternatives and \<open>ms_rep\<close> for a repetition with a lower and
  an optional upper bound, greedy or not. An unbounded repetition goes on only after an
  iteration that has consumed text.
\<close>

type_synonym caps = "nat \<Rightarrow> (nat \<times> nat) option"
type_synonym mstate = "nat \<times> caps"

fun in_ranges :: "char \<Rightarrow> string \<Rightarrow> bool" where
  "in_ranges c (lo # hi # rs) =
     (((of_char lo :: nat) \<le> of_char c \<and> (of_char c :: nat) \<le> of_char hi) \<or> in_ranges c rs)"
| "in_ranges c rs = False"

definition to_upper :: "char \<Rightarrow> char" where
  "to_upper c = (if in_ranges c ''az'' then char_of (of_char c - (32::nat)) else c)"

definition literal_at :: "Flag set \<Rightarrow> string \<Rightarrow> string \<Rightarrow> nat \<Rightarrow> bool" where
  "literal_at fl runes s i \<longleftrightarrow>
     (if FoldCase \<in> fl
      then map to_upper (take (length runes) (drop i s)) = map to_upper runes
      else take (length runes) (drop i s) = runes)"

definition is_word :: "string \<Rightarrow> int \<Rightarrow> bool" where
  "is_word s i \<longleftrightarrow> 0 \<le> i \<and> nat i < length s \<and> in_ranges (s ! nat i) ''09AZaz__''"

definition is_newline :: "string \<Rightarrow> int \<Rightarrow> bool" where
  "is_newline s i \<longleftrightarrow> 0 \<le> i \<and> nat i < length s \<and> s ! nat i = CHR 0x0A"

definition step_char :: "(char \<Rightarrow> bool) \<Rightarrow> string \<Rightarrow> mstate \<Rightarrow> mstate list" where
  "step_char P s st = (if fst st < length s \<and> P (s ! fst st) then [(Suc (fst st), snd st)] else [])"

definition assert :: "bool \<Rightarrow> mstate \<Rightarrow> mstate list" where
  "assert b st = (if b then [st] else [])"

function (sequential) ms :: "syntax_Regexp \<Rightarrow> string \<Rightarrow> mstate \<Rightarrow> mstate list"
  and ms_seq :: "syntax_Regexp list \<Rightarrow> string \<Rightarrow> mstate \<Rightarrow> mstate list"
  and ms_alt :: "syntax_Regexp list \<Rightarrow> string \<Rightarrow> mstate \<Rightarrow> mstate list"
  and ms_rep :: "syntax_Regexp list \<Rightarrow> bool \<Rightarrow> nat \<Rightarrow> nat option \<Rightarrow> string \<Rightarrow> mstate \<Rightarrow> mstate list"
  where
  "ms (Node op fl subs runes mn mx cp name) s st =
     (case op of
        OpNoMatch \<Rightarrow> []
      | OpEmptyMatch \<Rightarrow> [st]
      | OpLiteral \<Rightarrow>
          (if literal_at fl runes s (fst st) then [(fst st + length runes, snd st)] else [])
      | OpCharClass \<Rightarrow> step_char (\<lambda>c. in_ranges c runes) s st
      | OpAnyCharNotNL \<Rightarrow> step_char (\<lambda>c. c \<noteq> CHR 0x0A) s st
      | OpAnyChar \<Rightarrow> step_char (\<lambda>c. True) s st
      | OpBeginLine \<Rightarrow> assert (fst st = 0 \<or> is_newline s (int (fst st) - 1)) st
      | OpEndLine \<Rightarrow> assert (fst st = length s \<or> is_newline s (int (fst st))) st
      | OpBeginText \<Rightarrow> assert (fst st = 0) st
      | OpEndText \<Rightarrow> assert (fst st = length s) st
      | OpWordBoundary \<Rightarrow>
          assert (is_word s (int (fst st) - 1) \<noteq> is_word s (int (fst st))) st
      | OpNoWordBoundary \<Rightarrow>
          assert (is_word s (int (fst st) - 1) = is_word s (int (fst st))) st
      | OpCapture \<Rightarrow>
          map (\<lambda>st'. (fst st', (snd st')(cp \<mapsto> (fst st, fst st')))) (ms_seq subs s st)
      | OpStar \<Rightarrow> ms_rep subs (NonGreedy \<in> fl) 0 None s st
      | OpPlus \<Rightarrow> ms_rep subs (NonGreedy \<in> fl) 1 None s st
      | OpQuest \<Rightarrow> ms_rep subs (NonGreedy \<in> fl) 0 (Some 1) s st
      | OpRepeat \<Rightarrow>
          ms_rep subs (NonGreedy \<in> fl) (nat mn) (if mx < 0 then None else Some (nat mx)) s st
      | OpConcat \<Rightarrow> ms_seq subs s st
      | OpAlternate \<Rightarrow> ms_alt subs s st)"
| "ms_seq [] s st = [st]"
| "ms_seq (r # rs) s st = concat (map (ms_seq rs s) (ms r s st))"
| "ms_alt [] s st = []"
| "ms_alt (r # rs) s st = ms r s st @ ms_alt rs s st"
| "ms_rep subs lazy n m s st =
     (let more =
            (if m = Some 0 then []
             else concat (map (\<lambda>st'. if 0 < n \<or> m \<noteq> None \<or> (fst st < fst st' \<and> fst st' \<le> length s)
                                      then ms_rep subs lazy (n - 1) (map_option (\<lambda>k. k - 1) m) s st'
                                      else [])
                              (ms_seq subs s st)));
          stop = (if n = 0 then [st] else [])
      in if lazy then stop @ more else more @ stop)"
  by pat_completeness auto

termination
  apply (relation "measures
     [case_sum
        (case_sum (\<lambda>(re, s, st). size re) (\<lambda>(rs, s, st). size_list size rs))
        (case_sum (\<lambda>(rs, s, st). size_list size rs)
                  (\<lambda>(rs, lz, n, m, s, st). size_list size rs)),
      case_sum (\<lambda>x. 0) (case_sum (\<lambda>x. 0) (\<lambda>x. 1)),
      case_sum (\<lambda>x. 0) (case_sum (\<lambda>x. 0)
         (\<lambda>(rs, lz, n, m, s, st). n + (case m of None \<Rightarrow> 0 | Some k \<Rightarrow> k))),
      case_sum (\<lambda>x. 0) (case_sum (\<lambda>x. 0)
         (\<lambda>(rs, lz, n, m, s, st). length s - fst st))]")
                      apply (auto split: option.splits)
  done

declare ms_rep.simps [simp del]



text \<open>
  \<^verbatim>\<open>MaxCap\<close> of \<^verbatim>\<open>regexp/syntax\<close>, the number of subexpressions of the compiled
  expression. \<^verbatim>\<open>FindStringSubmatch\<close> tries the start positions from the left and
  returns the text of the match and of each group, the empty string for a group that
  took no part; \<^verbatim>\<open>MatchString\<close> reports whether there is a match.
\<close>

fun MaxCap :: "syntax_Regexp \<Rightarrow> nat"
  and MaxCap_list :: "syntax_Regexp list \<Rightarrow> nat" where
  "MaxCap (Node op fl subs runes mn mx cp name) =
     max (if op = OpCapture then cp else 0) (MaxCap_list subs)"
| "MaxCap_list [] = 0"
| "MaxCap_list (sub # subs) = max (MaxCap sub) (MaxCap_list subs)"

definition submatch :: "string \<Rightarrow> (nat \<times> nat) option \<Rightarrow> string" where
  "submatch s c = (case c of None \<Rightarrow> [] | Some (i, j) \<Rightarrow> take (j - i) (drop i s))"

fun find_from :: "syntax_Regexp \<Rightarrow> string \<Rightarrow> nat list \<Rightarrow> (nat \<times> mstate) option" where
  "find_from re s [] = None"
| "find_from re s (i # is) =
     (case ms re s (i, Map.empty) of
        [] \<Rightarrow> find_from re s is
      | st # sts \<Rightarrow> Some (i, st))"

definition FindStringSubmatch :: "syntax_Regexp \<Rightarrow> string \<Rightarrow> string list option" where
  "FindStringSubmatch re s =
     (case find_from re s [0..<Suc (length s)] of
        None \<Rightarrow> None
      | Some (i, st) \<Rightarrow>
          Some (map (\<lambda>k. submatch s (((snd st)(0 \<mapsto> (i, fst st))) k)) [0..<Suc (MaxCap re)]))"

definition MatchString :: "Regexp \<Rightarrow> string \<Rightarrow> bool" where
  "MatchString r s \<longleftrightarrow> FindStringSubmatch (compiled r) s \<noteq> None"


text \<open>
  \<^verbatim>\<open>Values\<close>. The loop adds, for the \<open>k\<close>-th group, the submatch at the \<open>k\<close>-th index
  to the bag entry of the group's name; an index out of range panics. Without a match
  the result is nil.
\<close>

fun Values_loop :: "string list \<Rightarrow> int list \<Rightarrow> string list \<Rightarrow> Values \<Rightarrow> error + Values" where
  "Values_loop [] ixs match values = Inr values"
| "Values_loop (v # vs) [] match values = Inl IndexOutOfRange"
| "Values_loop (v # vs) (ix # ixs) match values =
     (if 0 \<le> ix \<and> nat ix < length match
      then Values_loop vs ixs match (Add values v (match ! nat ix))
      else Inl IndexOutOfRange)"

definition Values :: "Regexp \<Rightarrow> string \<Rightarrow> error + Values option" where
  "Values r s =
     (case FindStringSubmatch (compiled r) s of
        None \<Rightarrow> Inr None
      | Some match \<Rightarrow>
          (case Values_loop (Regexp.groups r) (Regexp.indices r) match Map.empty of
             Inl err \<Rightarrow> Inl err
           | Inr values \<Rightarrow> Inr (Some values)))"


text \<open>\<^verbatim>\<open>RevertValid\<close>: Revert, then the matcher on the string produced.\<close>

definition RevertValid :: "Regexp \<Rightarrow> Values \<Rightarrow> (error + string) \<times> Values" where
  "RevertValid r values =
     (case Revert r values of
        (Inl err, values') \<Rightarrow> (Inl err, values')
      | (Inr reverse, values') \<Rightarrow>
          if \<not> MatchString r reverse then (Inl (RevertMismatch reverse), values')
          else (Inr reverse, values'))"


text \<open>
  \<^verbatim>\<open>NewGorillaPath\<close>: the translator in path mode, then CompileRegexp. The struct
  \<^verbatim>\<open>GorillaPath\<close> embeds the Regexp beside the template and the strict-slash flag.
\<close>

record GorillaPath =
  regexp :: Regexp
  pattern :: string
  strictSlash :: bool

definition NewGorillaPath ::
  "(string \<Rightarrow> error + syntax_Regexp) \<Rightarrow> string \<Rightarrow> bool \<Rightarrow> error + GorillaPath" where
  "NewGorillaPath parse pat strict =
     (case gorillaPattern pat False False strict of
        Inl err \<Rightarrow> Inl err
      | Inr regexpPattern \<Rightarrow>
          (case CompileRegexp parse regexpPattern of
             Inl err \<Rightarrow> Inl err
           | Inr r \<Rightarrow> Inr \<lparr>regexp = r, pattern = pat, strictSlash = strict\<rparr>))"

text \<open>
  The parser numbers the capturing groups in the order of their opening parentheses:
  \<open>numbered re n\<close> checks that the groups of \<open>re\<close> bear the numbers after \<open>n\<close> in
  that order and returns the last number.
\<close>

fun numbered :: "syntax_Regexp \<Rightarrow> nat \<Rightarrow> nat option"
  and numbered_list :: "syntax_Regexp list \<Rightarrow> nat \<Rightarrow> nat option" where
  "numbered (Node op fl subs runes mn mx cp name) n =
     (if op = OpCapture then (if cp = Suc n then numbered_list subs (Suc n) else None)
      else numbered_list subs n)"
| "numbered_list [] n = Some n"
| "numbered_list (sub # subs) n =
     (case numbered sub n of None \<Rightarrow> None | Some m \<Rightarrow> numbered_list subs m)"

text \<open>
  What extraction is to collect under a key: the submatch texts at the indices of the
  groups that bear the key, in the order of the group list.
\<close>

definition extracted :: "string list \<Rightarrow> int list \<Rightarrow> string list \<Rightarrow> string \<Rightarrow> string list" where
  "extracted gs ixs match key =
     map snd (filter (\<lambda>p. fst p = key) (zip gs (map (\<lambda>ix. match ! nat ix) ixs)))"

section \<open>The shape of a reversible expression\<close>

text \<open>
  An expression is plain when, outside its capturing groups, it is built from literals
  that are not case-folded, capturing groups, concatenations and empty-width
  assertions. \<open>outer_caps\<close> lists the numbers of its outermost groups, and \<open>pieces\<close>
  is the text it denotes when the text of each outermost group is given: the literals
  and the group texts in order.
\<close>

fun plain :: "syntax_Regexp \<Rightarrow> bool"
  and plain_list :: "syntax_Regexp list \<Rightarrow> bool" where
  "plain (Node op fl subs runes mn mx cp name) =
     (case op of
        OpLiteral \<Rightarrow> FoldCase \<notin> fl
      | OpCapture \<Rightarrow> True
      | OpConcat \<Rightarrow> plain_list subs
      | OpEmptyMatch \<Rightarrow> True
      | OpBeginLine \<Rightarrow> True
      | OpEndLine \<Rightarrow> True
      | OpBeginText \<Rightarrow> True
      | OpEndText \<Rightarrow> True
      | OpWordBoundary \<Rightarrow> True
      | OpNoWordBoundary \<Rightarrow> True
      | _ \<Rightarrow> False)"
| "plain_list [] = True"
| "plain_list (sub # subs) = (plain sub \<and> plain_list subs)"

fun outer_caps :: "syntax_Regexp \<Rightarrow> nat list"
  and outer_caps_list :: "syntax_Regexp list \<Rightarrow> nat list" where
  "outer_caps (Node op fl subs runes mn mx cp name) =
     (case op of
        OpCapture \<Rightarrow> [cp]
      | OpConcat \<Rightarrow> outer_caps_list subs
      | _ \<Rightarrow> [])"
| "outer_caps_list [] = []"
| "outer_caps_list (sub # subs) = outer_caps sub @ outer_caps_list subs"

fun pieces :: "syntax_Regexp \<Rightarrow> (nat \<Rightarrow> string) \<Rightarrow> string"
  and pieces_list :: "syntax_Regexp list \<Rightarrow> (nat \<Rightarrow> string) \<Rightarrow> string" where
  "pieces (Node op fl subs runes mn mx cp name) f =
     (case op of
        OpLiteral \<Rightarrow> runes
      | OpCapture \<Rightarrow> f cp
      | OpConcat \<Rightarrow> pieces_list subs f
      | _ \<Rightarrow> [])"
| "pieces_list [] f = []"
| "pieces_list (sub # subs) f = pieces sub f @ pieces_list subs f"

text \<open>
  The numbers of all the groups of an expression, and the relation between a state of
  the matcher and a later one: the position has not moved back, and the registers
  outside a given set are unchanged.
\<close>

fun caps_of :: "syntax_Regexp \<Rightarrow> nat set"
  and caps_of_list :: "syntax_Regexp list \<Rightarrow> nat set" where
  "caps_of (Node op fl subs runes mn mx cp name) =
     (if op = OpCapture then {cp} else {}) \<union> caps_of_list subs"
| "caps_of_list [] = {}"
| "caps_of_list (sub # subs) = caps_of sub \<union> caps_of_list subs"

definition reach :: "nat set \<Rightarrow> mstate \<Rightarrow> mstate \<Rightarrow> bool" where
  "reach C st st' \<longleftrightarrow> fst st \<le> fst st' \<and> (\<forall>k. k \<notin> C \<longrightarrow> snd st' k = snd st k)"

text \<open>The text of a group in a state of the matcher.\<close>

definition text_of :: "string \<Rightarrow> caps \<Rightarrow> nat \<Rightarrow> string" where
  "text_of s c k = submatch s (c k)"

lemmas tree_defs =
  lit_def cap_def cat_def cc_def plus_def quest_def bot_def eot_def digit_def lower_def

lemmas eval_defs =
  compile_tree_def tree_defs new_template_def Revert_def lookup_def write_runes_def

lemmas match_defs =
  FindStringSubmatch_def MatchString_def tree_defs step_char_def assert_def literal_at_def
  submatch_def upt_conv_Cons ms_rep.simps

section \<open>The walk and the outline\<close>


lemma fmt_of_append: "fmt_of (a @ b) = fmt_of a @ fmt_of b"
  by (induction a rule: fmt_of.induct) auto

lemma seg_names_append: "seg_names (a @ b) = seg_names a @ seg_names b"
  by (induction a rule: seg_names.induct) auto

lemma seg_indices_append: "seg_indices (a @ b) = seg_indices a @ seg_indices b"
  by (induction a rule: seg_indices.induct) auto

lemma length_seg_indices: "length (seg_indices segs) = length (seg_names segs)"
  by (induction segs rule: seg_names.induct) auto

lemma write_outline:
  "0 \<le> level t \<Longrightarrow>
   write re t = (if level t = 0 then emit t (outline re (index t)) (visited_caps re)
                 else t\<lparr>index := index t + visited_caps re\<rparr>)"
  "0 \<le> level t \<Longrightarrow>
   write_subs subs t =
     (if level t = 0 then emit t (outline_list subs (index t)) (visited_caps_list subs)
      else t\<lparr>index := index t + visited_caps_list subs\<rparr>)"
proof (induction re t and subs t rule: write_write_subs.induct)
  case (1 op fl subs runes mn mx cp name t)
  show ?case
  proof (cases op)
    case OpCapture
    then show ?thesis using 1 by (auto simp add: emit_def Let_def)
  next
    case OpConcat
    then show ?thesis using 1 by simp
  qed (simp_all add: emit_def)
next
  case (2 t)
  then show ?case by (simp add: emit_def)
next
  case (3 sub subs t)
  then show ?case
    by (auto simp add: emit_def fmt_of_append seg_names_append seg_indices_append)
qed

lemma compile_tree_outline:
  "template (compile_tree re) = fmt_of (outline re 0)"
  "Regexp.groups (compile_tree re) = seg_names (outline re 0)"
  "Regexp.indices (compile_tree re) = seg_indices (outline re 0)"
  "compiled (compile_tree re) = re"
  by (simp_all add: compile_tree_def Let_def write_outline new_template_def emit_def)

lemma visited_caps_nonneg:
  "0 \<le> visited_caps re" "0 \<le> visited_caps_list subs"
  by (induction re and subs rule: visited_caps_visited_caps_list.induct)
     (auto split: Op.splits)

lemma outline_indices_bounds:
  "i \<in> set (seg_indices (outline re idx)) \<Longrightarrow> idx < i \<and> i \<le> idx + visited_caps re"
  "i \<in> set (seg_indices (outline_list subs idx)) \<Longrightarrow> idx < i \<and> i \<le> idx + visited_caps_list subs"
proof (induction re idx and subs idx arbitrary: i and i rule: outline_outline_list.induct)
  case (1 op fl subs runes mn mx cp name idx)
  then show ?case using visited_caps_nonneg(2) [of subs] by (cases op) auto
next
  case (2 idx)
  then show ?case by simp
next
  case (3 sub subs idx)
  then show ?case
    using visited_caps_nonneg(1) [of sub] visited_caps_nonneg(2) [of subs]
    by (fastforce simp add: seg_indices_append)
qed

lemma outline_indices_increasing:
  "sorted_wrt (<) (seg_indices (outline re idx))"
  "sorted_wrt (<) (seg_indices (outline_list subs idx))"
proof (induction re idx and subs idx rule: outline_outline_list.induct)
  case (1 op fl subs runes mn mx cp name idx)
  then show ?case by (cases op) auto
next
  case (2 idx)
  then show ?case by simp
next
  case (3 sub subs idx)
  then show ?case
    using outline_indices_bounds(1) [of _ sub idx]
      outline_indices_bounds(2) [of _ subs "idx + visited_caps sub"]
    by (fastforce simp add: seg_indices_append sorted_wrt_append)
qed

lemma write_runes_simps:
  "write_runes [] = []"
  "write_runes (c # s) = (if c = CHR ''%'' then ''%%'' else [c]) @ write_runes s"
  by (simp_all add: write_runes_def)

lemma placeholders_skip: "c \<noteq> CHR ''%'' \<Longrightarrow> placeholders (c # f) = placeholders f"
  by (cases f) simp_all

lemma placeholders_write_runes: "placeholders (write_runes s @ f) = placeholders f"
  by (induction s) (simp_all add: write_runes_simps placeholders_skip)

lemma placeholders_fmt_of: "placeholders (fmt_of segs) = length (seg_names segs)"
  by (induction segs rule: fmt_of.induct) (auto simp add: placeholders_write_runes)

lemma Sprintf_write_runes: "Sprintf (write_runes s @ f) vals = s @ Sprintf f vals"
  by (induction s) (simp_all add: write_runes_simps)

lemma render_Sprintf:
  "length vals = length (seg_names segs) \<Longrightarrow> render segs vals = Some (Sprintf (fmt_of segs) vals)"
  by (induction segs vals rule: render.induct) (auto simp add: Sprintf_write_runes)

section \<open>The loop of Revert\<close>

lemma lookup_upd: "lookup (bag(g \<mapsto> xs)) key = (if key = g then xs else lookup bag key)"
  by (simp add: lookup_def)

lemma consumed_Cons:
  "lookup bag g = x # xs \<Longrightarrow> consumed gs (bag(g \<mapsto> xs)) = consumed (g # gs) bag"
  by (rule ext) (auto simp add: consumed_def lookup_upd)

lemma exhausted_Suc:
  "lookup bag g = x # xs \<Longrightarrow>
   exhausted (g # gs) bag (Suc k) = exhausted gs (bag(g \<mapsto> xs)) k"
  by (auto simp add: exhausted_def lookup_upd)

lemma popped_Suc:
  "lookup bag g = x # xs \<Longrightarrow> popped (g # gs) bag (Suc k) = popped gs (bag(g \<mapsto> xs)) k"
  by (auto simp add: popped_def lookup_upd)

lemma exhausted_0: "exhausted (g # gs) bag 0 \<longleftrightarrow> lookup bag g = []"
  by (simp add: exhausted_def)

lemma popped_0: "lookup bag g = x # xs \<Longrightarrow> popped (g # gs) bag 0 = x"
  by (simp add: popped_def)

lemma Revert_loop_ok:
  "\<forall>k<length gs. \<not> exhausted gs bag k \<Longrightarrow>
   Revert_loop gs n vars bag = (Inr (vars @ map (popped gs bag) [0..<length gs]), consumed gs bag)"
proof (induction gs arbitrary: vars bag)
  case Nil
  show ?case by (simp add: consumed_def)
next
  case (Cons g gs)
  from Cons.prems have "\<not> exhausted (g # gs) bag 0" by auto
  then obtain x xs where l: "lookup bag g = x # xs"
    by (auto simp add: exhausted_0 neq_Nil_conv)
  have "\<forall>k<length gs. \<not> exhausted gs (bag(g \<mapsto> xs)) k"
    using Cons.prems exhausted_Suc [OF l] by auto
  from Cons.IH [OF this]
  have "Revert_loop gs n (vars @ [x]) (bag(g \<mapsto> xs)) =
        (Inr ((vars @ [x]) @ map (popped gs (bag(g \<mapsto> xs))) [0..<length gs]), consumed gs (bag(g \<mapsto> xs)))" .
  moreover have "map (popped (g # gs) bag) [0..<length (g # gs)]
     = x # map (popped gs (bag(g \<mapsto> xs))) [0..<length gs]"
    using popped_0 [OF l] popped_Suc [OF l]
    by (simp add: upt_conv_Cons map_Suc_upt [symmetric] del: upt_Suc)
  ultimately show ?case
    using l consumed_Cons [OF l] by simp
qed

lemma Revert_loop_missing:
  "k < length gs \<Longrightarrow> exhausted gs bag k \<Longrightarrow> \<forall>j<k. \<not> exhausted gs bag j \<Longrightarrow>
   Revert_loop gs n vars bag = (Inl (MissingVariable (gs ! k) n), consumed (take k gs) bag)"
proof (induction gs arbitrary: vars bag k)
  case Nil
  then show ?case by simp
next
  case (Cons g gs)
  show ?case
  proof (cases k)
    case 0
    with Cons.prems have "lookup bag g = []" by (simp add: exhausted_0)
    with 0 show ?thesis by (simp add: consumed_def)
  next
    case (Suc k')
    with Cons.prems have "\<not> exhausted (g # gs) bag 0" by auto
    then obtain x xs where l: "lookup bag g = x # xs"
      by (auto simp add: exhausted_0 neq_Nil_conv)
    have a: "k' < length gs" using Cons.prems Suc by simp
    have b: "exhausted gs (bag(g \<mapsto> xs)) k'"
      using Cons.prems Suc exhausted_Suc [OF l] by simp
    have c: "\<forall>j<k'. \<not> exhausted gs (bag(g \<mapsto> xs)) j"
      using Cons.prems Suc exhausted_Suc [OF l] by auto
    have "Revert_loop (g # gs) n vars bag = Revert_loop gs n (vars @ [x]) (bag(g \<mapsto> xs))"
      using l by simp
    also have "\<dots> = (Inl (MissingVariable (gs ! k') n), consumed (take k' gs) (bag(g \<mapsto> xs)))"
      by (rule Cons.IH [OF a b c])
    also have "consumed (take k' gs) (bag(g \<mapsto> xs)) = consumed (take k (g # gs)) bag"
      using Suc consumed_Cons [OF l] by simp
    finally show ?thesis using Suc by simp
  qed
qed

text \<open>The first group that finds its key exhausted, when there is one.\<close>

lemma first_exhausted:
  assumes "\<exists>k<length gs. exhausted gs bag k"
  defines "m \<equiv> (LEAST k. k < length gs \<and> exhausted gs bag k)"
  shows "m < length gs" "exhausted gs bag m" "\<forall>j<m. \<not> exhausted gs bag j"
proof -
  from assms(1) obtain k where k: "k < length gs \<and> exhausted gs bag k" by blast
  have *: "m < length gs \<and> exhausted gs bag m"
    unfolding m_def by (rule LeastI [of "\<lambda>k. k < length gs \<and> exhausted gs bag k", OF k])
  then show "m < length gs" "exhausted gs bag m" by simp_all
  show "\<forall>j<m. \<not> exhausted gs bag j"
  proof (intro allI impI notI)
    fix j assume "j < m" "exhausted gs bag j"
    with * have "j < length gs \<and> exhausted gs bag j" by simp
    then have "m \<le> j" unfolding m_def by (rule Least_le)
    with \<open>j < m\<close> show False by simp
  qed
qed

lemma Revert_cases:
  "(\<exists>k<length (Regexp.groups r). exhausted (Regexp.groups r) bag k) \<Longrightarrow>
   Revert r bag =
     (Inl (MissingVariable
            (Regexp.groups r ! (LEAST k. k < length (Regexp.groups r) \<and> exhausted (Regexp.groups r) bag k))
            (length (Regexp.groups r))),
      consumed (take (LEAST k. k < length (Regexp.groups r) \<and> exhausted (Regexp.groups r) bag k)
                  (Regexp.groups r)) bag)"
  "\<not> (\<exists>k<length (Regexp.groups r). exhausted (Regexp.groups r) bag k) \<Longrightarrow>
   Revert r bag =
     (Inr (Sprintf (template r) (map (popped (Regexp.groups r) bag) [0..<length (Regexp.groups r)])),
      consumed (Regexp.groups r) bag)"
proof -
  assume a: "\<exists>k<length (Regexp.groups r). exhausted (Regexp.groups r) bag k"
  show "Revert r bag =
     (Inl (MissingVariable
            (Regexp.groups r ! (LEAST k. k < length (Regexp.groups r) \<and> exhausted (Regexp.groups r) bag k))
            (length (Regexp.groups r))),
      consumed (take (LEAST k. k < length (Regexp.groups r) \<and> exhausted (Regexp.groups r) bag k)
                  (Regexp.groups r)) bag)"
    using Revert_loop_missing [OF first_exhausted [OF a]]
    by (simp add: Revert_def)
next
  assume "\<not> (\<exists>k<length (Regexp.groups r). exhausted (Regexp.groups r) bag k)"
  then have "\<forall>k<length (Regexp.groups r). \<not> exhausted (Regexp.groups r) bag k" by blast
  from Revert_loop_ok [OF this]
  show "Revert r bag =
     (Inr (Sprintf (template r) (map (popped (Regexp.groups r) bag) [0..<length (Regexp.groups r)])),
      consumed (Regexp.groups r) bag)"
    by (simp add: Revert_def)
qed

section \<open>Reversion\<close>



text \<open>
  C4. For a compiled expression, Revert fails exactly when some group, in the order of
  the group list, finds its key exhausted. The error is then MissingVariable with the
  key of the first such group and the length of the group list. When Revert succeeds,
  the string it returns is the rendering of the template's segments with the popped
  values: each placeholder replaced by the value of its group, literals unchanged.
\<close>

theorem C4_Revert_fails_iff_a_key_runs_out:
  "CompileRegexp parse pat = Inr r \<Longrightarrow>
   ((\<exists>e. fst (Revert r bag) = Inl e) \<longleftrightarrow>
      (\<exists>k<length (Regexp.groups r). exhausted (Regexp.groups r) bag k)) \<and>
   (\<forall>e. fst (Revert r bag) = Inl e \<longrightarrow>
      e = MissingVariable
            (Regexp.groups r ! (LEAST k. k < length (Regexp.groups r) \<and> exhausted (Regexp.groups r) bag k))
            (length (Regexp.groups r))) \<and>
   (\<forall>s. fst (Revert r bag) = Inr s \<longrightarrow>
      render (outline (compiled r) 0)
        (map (popped (Regexp.groups r) bag) [0..<length (Regexp.groups r)]) = Some s)"
proof -
  assume c: "CompileRegexp parse pat = Inr r"
  then obtain re where r: "r = compile_tree re"
    by (auto simp add: CompileRegexp_def split: sum.splits)
  let ?gs = "Regexp.groups r"
  let ?vals = "map (popped ?gs bag) [0..<length ?gs]"
  have len: "length ?vals = length (seg_names (outline re 0))"
    by (simp add: r compile_tree_outline)
  have ren: "render (outline (compiled r) 0) ?vals = Some (Sprintf (template r) ?vals)"
    using render_Sprintf [OF len] by (simp add: r compile_tree_outline)
  show ?thesis
  proof (cases "\<exists>k<length ?gs. exhausted ?gs bag k")
    case True
    then show ?thesis using Revert_cases(1) [OF True] by simp
  next
    case False
    then show ?thesis using Revert_cases(2) [OF False] ren by simp
  qed
qed

theorem C4_witness:
  "CompileRegexp (\<lambda>p. Inr re_7_foo_pos_0) ''^7...0$'' = Inr (compile_tree re_7_foo_pos_0) \<and>
   exhausted [''foo'', []] [''foo'' \<mapsto> [''8'']] 1 \<and>
   fst (Revert (compile_tree re_7_foo_pos_0) [''foo'' \<mapsto> [''8'']]) = Inl (MissingVariable [] 2) \<and>
   fst (Revert (compile_tree re_7_foo_pos_0) [''foo'' \<mapsto> [''8''], [] \<mapsto> [''9'']]) = Inr ''7890'' \<and>
   render (outline re_7_foo_pos_0 0) [''8'', ''9''] = Some ''7890''"
proof -
  let ?r = "compile_tree re_7_foo_pos_0"
  have c: "CompileRegexp (\<lambda>p. Inr re_7_foo_pos_0) ''^7...0$'' = Inr ?r"
    by (simp add: CompileRegexp_def)
  have g: "Regexp.groups ?r = [''foo'', []]"
    by (simp add: compile_tree_def re_7_foo_pos_0_def tree_defs new_template_def)
  have e: "exhausted [''foo'', []] [''foo'' \<mapsto> [''8'']] 1"
    by (simp add: exhausted_def lookup_def)
  have r1: "fst (Revert ?r [''foo'' \<mapsto> [''8'']]) = Inl (MissingVariable [] 2)"
    by (auto simp add: re_7_foo_pos_0_def eval_defs)
  have r2: "fst (Revert ?r [''foo'' \<mapsto> [''8''], [] \<mapsto> [''9'']]) = Inr ''7890''"
    by (auto simp add: re_7_foo_pos_0_def eval_defs)
  have p: "popped [''foo'', []] [''foo'' \<mapsto> [''8''], [] \<mapsto> [''9'']] 0 = ''8''"
    "popped [''foo'', []] [''foo'' \<mapsto> [''8''], [] \<mapsto> [''9'']] (Suc 0) = ''9''"
    by (simp_all add: popped_def lookup_def)
  from C4_Revert_fails_iff_a_key_runs_out [OF c, of "[''foo'' \<mapsto> [''8''], [] \<mapsto> [''9'']]"] r2
  have "render (outline re_7_foo_pos_0 0) [''8'', ''9''] = Some ''7890''"
    using g p by (simp add: compile_tree_outline(4))
  with c e r1 r2 show ?thesis by simp
qed

lemma lookup_consumed:
  "lookup (consumed gs bag) key = drop (count_list gs key) (lookup bag key)"
  by (simp add: consumed_def lookup_def count_list_0_iff)

text \<open>
  C10. Revert does not restore the bag when it fails. When it returns the
  MissingVariable error, raised at the first group \<open>k\<close> whose key is exhausted, the bag
  it leaves has lost, under every key, as many front values as groups before \<open>k\<close> bear
  that key; when a group was processed before the failing one, the bag left differs
  from the bag given.
\<close>

theorem C10_Revert_leaves_the_bag_partially_consumed:
  "fst (Revert r bag) = Inl e \<Longrightarrow>
   (\<exists>k<length (Regexp.groups r).
      e = MissingVariable (Regexp.groups r ! k) (length (Regexp.groups r)) \<and>
      exhausted (Regexp.groups r) bag k \<and> (\<forall>j<k. \<not> exhausted (Regexp.groups r) bag j) \<and>
      (\<forall>key. lookup (snd (Revert r bag)) key =
               drop (count_list (take k (Regexp.groups r)) key) (lookup bag key)) \<and>
      (0 < k \<longrightarrow> snd (Revert r bag) \<noteq> bag))"
proof -
  let ?gs = "Regexp.groups r"
  let ?k = "LEAST k. k < length ?gs \<and> exhausted ?gs bag k"
  assume e: "fst (Revert r bag) = Inl e"
  have ex: "\<exists>k<length ?gs. exhausted ?gs bag k"
  proof (rule ccontr)
    assume "\<not> ?thesis"
    from Revert_cases(2) [OF this] e show False by simp
  qed
  note f = first_exhausted [OF ex]
  note R = Revert_cases(1) [OF ex]
  have k1: "e = MissingVariable (?gs ! ?k) (length ?gs)" using R e by simp
  have k2: "\<forall>key. lookup (snd (Revert r bag)) key = drop (count_list (take ?k ?gs) key) (lookup bag key)"
    using R by (simp add: lookup_consumed)
  have k3: "0 < ?k \<longrightarrow> snd (Revert r bag) \<noteq> bag"
  proof (intro impI notI)
    assume pos: "0 < ?k" and same: "snd (Revert r bag) = bag"
    from pos f(3) have n0: "\<not> exhausted ?gs bag 0" by blast
    then have ne: "lookup bag (?gs ! 0) \<noteq> []" by (simp add: exhausted_def)
    from pos f(1) have "?gs ! 0 = take ?k ?gs ! 0" "0 < length (take ?k ?gs)"
      by simp_all
    then have "?gs ! 0 \<in> set (take ?k ?gs)"
      by (metis nth_mem)
    then have "0 < count_list (take ?k ?gs) (?gs ! 0)"
      by (simp add: count_list_0_iff zero_less_iff_neq_zero)
    with ne have "length (drop (count_list (take ?k ?gs) (?gs ! 0)) (lookup bag (?gs ! 0)))
       < length (lookup bag (?gs ! 0))" by (cases "lookup bag (?gs ! 0)") auto
    with k2 same show False by simp
  qed
  show ?thesis
  proof (intro exI [of _ ?k] conjI)
    show "?k < length ?gs" by (rule f(1))
    show "e = MissingVariable (?gs ! ?k) (length ?gs)" by (rule k1)
    show "exhausted ?gs bag ?k" by (rule f(2))
    show "\<forall>j<?k. \<not> exhausted ?gs bag j" by (rule f(3))
    show "\<forall>key. lookup (snd (Revert r bag)) key = drop (count_list (take ?k ?gs) key) (lookup bag key)"
      by (rule k2)
    show "0 < ?k \<longrightarrow> snd (Revert r bag) \<noteq> bag" by (rule k3)
  qed
qed

theorem C10_witness:
  "fst (Revert (compile_tree re_7_foo_pos_0) [''foo'' \<mapsto> [''8'']]) = Inl (MissingVariable [] 2) \<and>
   snd (Revert (compile_tree re_7_foo_pos_0) [''foo'' \<mapsto> [''8'']]) = [''foo'' \<mapsto> []] \<and>
   snd (Revert (compile_tree re_7_foo_pos_0) [''foo'' \<mapsto> [''8'']]) \<noteq> [''foo'' \<mapsto> [''8'']]"
proof -
  let ?r = "compile_tree re_7_foo_pos_0"
  let ?bag = "[''foo'' \<mapsto> [''8'']]"
  have g: "Regexp.groups ?r = [''foo'', []]"
    by (simp add: re_7_foo_pos_0_def eval_defs)
  have r1: "fst (Revert ?r ?bag) = Inl (MissingVariable [] 2)"
    by (auto simp add: re_7_foo_pos_0_def eval_defs)
  have r2: "snd (Revert ?r ?bag) = [''foo'' \<mapsto> []]"
    by (auto simp add: re_7_foo_pos_0_def eval_defs)
  from C10_Revert_leaves_the_bag_partially_consumed [OF r1]
  obtain k where k: "k < length (Regexp.groups ?r)"
    "exhausted (Regexp.groups ?r) ?bag k"
    "0 < k \<longrightarrow> snd (Revert ?r ?bag) \<noteq> ?bag"
    by (elim exE conjE)
  have "\<not> exhausted (Regexp.groups ?r) ?bag 0"
    by (simp add: g exhausted_def lookup_def)
  with k(2) have "0 < k" by (cases k) simp_all
  with k(3) have "snd (Revert ?r ?bag) \<noteq> ?bag" by simp
  with r1 r2 show ?thesis by simp
qed

section \<open>The compiled template\<close>

text \<open>
  C7. For every pattern that CompileRegexp accepts, the group list and the index list
  have the same length, which is the number of placeholders of the template; the
  indices are strictly increasing; and the template, the group list and the index list
  are the format, the placeholder names and the placeholder indices of one sequence of
  segments, so that the placeholders stand in the template in the order of the group
  list.
\<close>

theorem C7_groups_indices_and_placeholders_agree:
  "CompileRegexp parse pat = Inr r \<Longrightarrow>
   length (Regexp.groups r) = length (Regexp.indices r) \<and>
   placeholders (template r) = length (Regexp.groups r) \<and>
   sorted_wrt (<) (Regexp.indices r) \<and>
   template r = fmt_of (outline (compiled r) 0) \<and>
   Regexp.groups r = seg_names (outline (compiled r) 0) \<and>
   Regexp.indices r = seg_indices (outline (compiled r) 0)"
proof -
  assume "CompileRegexp parse pat = Inr r"
  then obtain re where r: "r = compile_tree re"
    by (auto simp add: CompileRegexp_def split: sum.splits)
  show ?thesis
    unfolding r compile_tree_outline
    by (simp add: length_seg_indices placeholders_fmt_of outline_indices_increasing)
qed

theorem C7_witness:
  "CompileRegexp (\<lambda>p. Inr re_group_test) ''^1...$'' = Inr (compile_tree re_group_test) \<and>
   Regexp.groups (compile_tree re_group_test) = [[], ''foo'', [], ''bar''] \<and>
   Regexp.indices (compile_tree re_group_test) = [1, 5, 6, 8] \<and>
   template (compile_tree re_group_test) = ''1%s%s3%s%s'' \<and>
   placeholders (template (compile_tree re_group_test)) = 4 \<and>
   sorted_wrt (<) (Regexp.indices (compile_tree re_group_test))"
proof -
  have c: "CompileRegexp (\<lambda>p. Inr re_group_test) ''^1...$'' = Inr (compile_tree re_group_test)"
    by (simp add: CompileRegexp_def)
  have g: "Regexp.groups (compile_tree re_group_test) = [[], ''foo'', [], ''bar'']"
    "Regexp.indices (compile_tree re_group_test) = [1, 5, 6, 8]"
    "template (compile_tree re_group_test) = ''1%s%s3%s%s''"
    by (simp_all add: re_group_test_def eval_defs)
  note T = C7_groups_indices_and_placeholders_agree [OF c]
  from T have p: "placeholders (template (compile_tree re_group_test))
      = length (Regexp.groups (compile_tree re_group_test))"
    by (elim conjE)
  from T have s: "sorted_wrt (<) (Regexp.indices (compile_tree re_group_test))"
    by (elim conjE)
  have "placeholders (template (compile_tree re_group_test)) = 4"
    unfolding p g(1) by simp
  with c g s show ?thesis by simp
qed



section \<open>Brace scanning\<close>

lemma depth_Nil: "depth [] = 0"
  by (simp add: depth_def)

lemma depth_Cons:
  "depth (c # cs) = (if c = CHR ''{'' then 1 else if c = CHR ''}'' then - 1 else 0) + depth cs"
  by (simp add: depth_def)

lemma ex_le_Suc: "(\<exists>n\<le>Suc m. P n) \<longleftrightarrow> P 0 \<or> (\<exists>n\<le>m. P (Suc n))"
proof
  assume "\<exists>n\<le>Suc m. P n"
  then obtain n where n: "n \<le> Suc m" "P n" by blast
  show "P 0 \<or> (\<exists>n\<le>m. P (Suc n))"
  proof (cases n)
    case 0
    with n show ?thesis by simp
  next
    case (Suc k)
    with n show ?thesis by auto
  qed
next
  assume "P 0 \<or> (\<exists>n\<le>m. P (Suc n))"
  then show "\<exists>n\<le>Suc m. P n" by auto
qed

lemma braceIndices_loop_error:
  "braceIndices_loop s cs i lvl idx idxs = Inl e \<Longrightarrow> e = UnbalancedBraces s"
  by (induction s cs i lvl idx idxs rule: braceIndices_loop.induct)
     (auto split: if_splits)

lemma braceIndices_loop_fails:
  "0 \<le> lvl \<Longrightarrow>
   (\<exists>e. braceIndices_loop s cs i lvl idx idxs = Inl e) \<longleftrightarrow>
   ((\<exists>n\<le>length cs. lvl + depth (take n cs) < 0) \<or> lvl + depth cs \<noteq> 0)"
proof (induction cs arbitrary: i lvl idx idxs)
  case Nil
  then show ?case by (simp add: depth_Nil)
next
  case (Cons c cs)
  show ?case
  proof (cases "c = CHR ''{''")
    case True
    have "0 \<le> lvl + 1" using Cons.prems by simp
    from Cons.IH [OF this] True Cons.prems show ?thesis
      by (cases "lvl = 0") (simp_all add: ex_le_Suc depth_Cons depth_Nil add.assoc)
  next
    case False
    show ?thesis
    proof (cases "c = CHR ''}''")
      case True
      show ?thesis
      proof (cases "lvl = 0")
        case True
        have "\<exists>n\<le>length cs. lvl + depth (take (Suc n) (c # cs)) < 0"
          using True \<open>c = CHR ''}''\<close> by (intro exI [of _ 0]) (simp add: depth_Cons depth_Nil)
        then show ?thesis using True \<open>c = CHR ''}''\<close> by (simp add: ex_le_Suc)
      next
        case False
        then have "0 \<le> lvl - 1" using Cons.prems by simp
        from Cons.IH [OF this] False \<open>c = CHR ''}''\<close> Cons.prems show ?thesis
          by (cases "lvl = 1") (simp_all add: ex_le_Suc depth_Cons depth_Nil algebra_simps)
      qed
    next
      case False
      from Cons.IH [OF Cons.prems] False \<open>c \<noteq> CHR ''{''\<close> Cons.prems show ?thesis
        by (simp add: ex_le_Suc depth_Cons depth_Nil)
    qed
  qed
qed

text \<open>
  C8. The brace scan fails exactly when the nesting depth of some prefix of the input
  is negative or the depth of the whole input is not zero; its error is then
  UnbalancedBraces carrying the input, and the translator returns that error and no
  expression source. The templates \<^verbatim>\<open>{a\<close>, \<^verbatim>\<open>a}\<close> and \<^verbatim>\<open>{a{b}\<close> are rejected so.
\<close>

theorem C8_unbalanced_braces:
  "((\<exists>e. braceIndices s = Inl e) \<longleftrightarrow>
      ((\<exists>n\<le>length s. depth (take n s) < 0) \<or> depth s \<noteq> 0)) \<and>
   (\<forall>e. braceIndices s = Inl e \<longrightarrow>
      e = UnbalancedBraces s \<and>
      gorillaPattern s host prefix strict = Inl (UnbalancedBraces s)) \<and>
   braceIndices ''{a'' = Inl (UnbalancedBraces ''{a'') \<and>
   braceIndices ''a}'' = Inl (UnbalancedBraces ''a}'') \<and>
   braceIndices ''{a{b}'' = Inl (UnbalancedBraces ''{a{b}'')"
proof -
  have a: "(\<exists>e. braceIndices s = Inl e) \<longleftrightarrow>
      ((\<exists>n\<le>length s. depth (take n s) < 0) \<or> depth s \<noteq> 0)"
    using braceIndices_loop_fails [of 0 s s 0 0 "[]"] by (simp add: braceIndices_def)
  have b: "\<forall>e. braceIndices s = Inl e \<longrightarrow>
      e = UnbalancedBraces s \<and>
      gorillaPattern s host prefix strict = Inl (UnbalancedBraces s)"
  proof (intro allI impI)
    fix e assume f: "braceIndices s = Inl e"
    then have "e = UnbalancedBraces s"
      unfolding braceIndices_def by (rule braceIndices_loop_error)
    with f show "e = UnbalancedBraces s \<and>
      gorillaPattern s host prefix strict = Inl (UnbalancedBraces s)"
      by (simp add: gorillaPattern_def)
  qed
  have c: "braceIndices ''{a'' = Inl (UnbalancedBraces ''{a'')"
    "braceIndices ''a}'' = Inl (UnbalancedBraces ''a}'')"
    "braceIndices ''{a{b}'' = Inl (UnbalancedBraces ''{a{b}'')"
    by (simp_all add: braceIndices_def)
  from a b c show ?thesis by (intro conjI)
qed

theorem C8_witness:
  "depth (take 2 ''a}'') < 0 \<and>
   braceIndices ''a}'' = Inl (UnbalancedBraces ''a}'') \<and>
   gorillaPattern ''a}'' False False True = Inl (UnbalancedBraces ''a}'') \<and>
   depth ''/{a}/{b:x{2}}'' = 0 \<and>
   braceIndices ''/{a}/{b:x{2}}'' = Inr [1, 4, 5, 13]"
proof -
  have d: "depth (take 2 ''a}'') < 0" by (simp add: depth_def)
  then have "\<exists>n\<le>length ''a}''. depth (take n ''a}'') < 0"
    by (intro exI [of _ 2]) simp
  with C8_unbalanced_braces [of "''a}''" False False True]
  obtain e where e: "braceIndices ''a}'' = Inl e" by blast
  with C8_unbalanced_braces [of "''a}''" False False True]
  have "e = UnbalancedBraces ''a}''"
    "gorillaPattern ''a}'' False False True = Inl (UnbalancedBraces ''a}'')"
    by blast+
  moreover have "depth ''/{a}/{b:x{2}}'' = 0" by (simp add: depth_def)
  moreover have "braceIndices ''/{a}/{b:x{2}}'' = Inr [1, 4, 5, 13]"
    by (simp add: braceIndices_def)
  ultimately show ?thesis using d e by simp
qed

section \<open>Extraction\<close>

lemma lookup_Add: "lookup (Add bag g v) key = (if key = g then lookup bag g @ [v] else lookup bag key)"
  by (simp add: Add_def lookup_def)

lemma dom_Add: "dom (Add bag g v) = insert g (dom bag)"
  by (simp add: Add_def)

lemma extracted_Nil: "extracted [] ixs match key = []"
  by (simp add: extracted_def)

lemma extracted_Cons:
  "extracted (g # gs) (ix # ixs) match key =
     (if g = key then [match ! nat ix] else []) @ extracted gs ixs match key"
  by (simp add: extracted_def)

lemma Values_loop_extracted:
  "Values_loop gs ixs match bag0 = Inr bag \<Longrightarrow>
   lookup bag key = lookup bag0 key @ extracted gs ixs match key \<and> dom bag = dom bag0 \<union> set gs"
proof (induction gs ixs match bag0 rule: Values_loop.induct)
  case (1 ixs mt vals)
  then show ?case by (simp add: extracted_Nil)
next
  case (2 v vs mt vals)
  then show ?case by simp
next
  case (3 v vs ix ixs mt vals)
  from "3.prems" have ok: "0 \<le> ix \<and> nat ix < length mt"
    by (simp split: if_splits)
  with "3.prems" have "Values_loop vs ixs mt (Add vals v (mt ! nat ix)) = Inr bag"
    by simp
  from "3.IH" [OF ok this] show ?case
    by (auto simp add: lookup_Add dom_Add extracted_Cons)
qed

lemma Values_loop_total:
  "length gs \<le> length ixs \<Longrightarrow> \<forall>ix\<in>set ixs. 0 \<le> ix \<and> nat ix < length match \<Longrightarrow>
   \<exists>bag. Values_loop gs ixs match bag0 = Inr bag"
proof (induction gs ixs match bag0 rule: Values_loop.induct)
  case (1 ixs mt vals)
  then show ?case by simp
next
  case (2 v vs mt vals)
  then show ?case by simp
next
  case (3 v vs ix ixs mt vals)
  then show ?case by simp
qed

lemma FindStringSubmatch_length:
  "FindStringSubmatch re s = Some match \<Longrightarrow> length match = Suc (MaxCap re)"
  by (auto simp add: FindStringSubmatch_def split: option.splits prod.splits)

lemma numbered_mono:
  "numbered re n = Some m \<Longrightarrow>
     n \<le> m \<and> MaxCap re = (if m = n then 0 else m) \<and> int n + visited_caps re \<le> int m"
  "numbered_list subs n = Some m \<Longrightarrow>
     n \<le> m \<and> MaxCap_list subs = (if m = n then 0 else m) \<and> int n + visited_caps_list subs \<le> int m"
proof (induction re n and subs n arbitrary: m and m rule: numbered_numbered_list.induct)
  case (1 op fl subs runes mn mx cp name n)
  show ?case
  proof (cases "op = OpCapture")
    case True
    with "1.prems" have c: "cp = Suc n" and l: "numbered_list subs (Suc n) = Some m"
      by (simp_all split: if_splits)
    from "1.IH"(1) [OF True c l] True c show ?thesis by (auto simp add: max_def)
  next
    case False
    with "1.prems" have l: "numbered_list subs n = Some m" by simp
    have v: "visited_caps (Node op fl subs runes mn mx cp name) \<le> visited_caps_list subs"
      using False visited_caps_nonneg(2) [of subs] by (cases op) simp_all
    from "1.IH"(2) [OF False l] False v show ?thesis by auto
  qed
next
  case (2 n)
  then show ?case by simp
next
  case (3 sub subs n)
  from "3.prems" obtain k where k: "numbered sub n = Some k" and l: "numbered_list subs k = Some m"
    by (auto split: option.splits)
  from "3.IH"(1) [OF k] "3.IH"(2) [OF k l] show ?case
    by (auto simp add: max_def)
qed

lemma compiled_indices_in_range:
  assumes "numbered re 0 \<noteq> None" and "ix \<in> set (Regexp.indices (compile_tree re))"
  shows "0 \<le> ix \<and> nat ix < Suc (MaxCap re)"
proof -
  from assms(1) obtain m where m: "numbered re 0 = Some m" by auto
  from assms(2) have b: "0 < ix \<and> ix \<le> visited_caps re"
    using outline_indices_bounds(1) [of ix re 0] by (simp add: compile_tree_outline)
  from numbered_mono(1) [OF m] b show ?thesis by (auto split: if_splits)
qed

text \<open>
  C6. Values returns nil exactly when the expression does not match the text. For a
  compiled expression whose groups are numbered as the parser numbers them, a match
  yields a bag whose keys are the group names and whose entry under each key holds the
  submatch texts at the indices of the groups of that name, in the order of the group
  list. The pattern \<^verbatim>\<open>^7(?P<foo>\d)(\d)0$\<close> applied to "7890" yields the bag that maps
  the empty key to ["9"] and foo to ["8"].
\<close>

theorem C6_Values_extracts_by_group:
  "CompileRegexp parse pat = Inr r \<Longrightarrow> numbered (compiled r) 0 \<noteq> None \<Longrightarrow>
   (Values r s = Inr None \<longleftrightarrow> \<not> MatchString r s) \<and>
   (\<forall>match. FindStringSubmatch (compiled r) s = Some match \<longrightarrow>
      (\<exists>bag. Values r s = Inr (Some bag) \<and> dom bag = set (Regexp.groups r) \<and>
         (\<forall>key. lookup bag key = extracted (Regexp.groups r) (Regexp.indices r) match key))) \<and>
   Values (compile_tree re_7_foo_pos_0) ''7890'' = Inr (Some [''foo'' \<mapsto> [''8''], [] \<mapsto> [''9'']])"
proof -
  assume c: "CompileRegexp parse pat = Inr r" and n: "numbered (compiled r) 0 \<noteq> None"
  from c obtain re where r: "r = compile_tree re"
    by (auto simp add: CompileRegexp_def split: sum.splits)
  have a: "Values r s = Inr None \<longleftrightarrow> \<not> MatchString r s"
    by (auto simp add: Values_def MatchString_def split: option.splits sum.splits)
  have b: "\<forall>match. FindStringSubmatch (compiled r) s = Some match \<longrightarrow>
      (\<exists>bag. Values r s = Inr (Some bag) \<and> dom bag = set (Regexp.groups r) \<and>
         (\<forall>key. lookup bag key = extracted (Regexp.groups r) (Regexp.indices r) match key))"
  proof (intro allI impI)
    fix match assume f: "FindStringSubmatch (compiled r) s = Some match"
    then have len: "length match = Suc (MaxCap re)"
      using FindStringSubmatch_length [of re s match] by (simp add: r compile_tree_outline)
    have rng: "\<forall>ix\<in>set (Regexp.indices r). 0 \<le> ix \<and> nat ix < length match"
      using compiled_indices_in_range [of re] n len by (simp add: r compile_tree_outline)
    have le: "length (Regexp.groups r) \<le> length (Regexp.indices r)"
      by (simp add: r compile_tree_outline length_seg_indices)
    from Values_loop_total [OF le rng, of Map.empty]
    obtain bag where bag: "Values_loop (Regexp.groups r) (Regexp.indices r) match Map.empty = Inr bag"
      by blast
    have v: "Values r s = Inr (Some bag)" using f bag by (simp add: Values_def)
    have d: "dom bag = set (Regexp.groups r)"
      using Values_loop_extracted [OF bag] by simp
    have l: "\<forall>key. lookup bag key = extracted (Regexp.groups r) (Regexp.indices r) match key"
      using Values_loop_extracted [OF bag] by (simp add: lookup_def)
    from v d l
    show "\<exists>bag. Values r s = Inr (Some bag) \<and> dom bag = set (Regexp.groups r) \<and>
         (\<forall>key. lookup bag key = extracted (Regexp.groups r) (Regexp.indices r) match key)"
      by (intro exI [of _ bag] conjI)
  qed
  have m: "FindStringSubmatch re_7_foo_pos_0 ''7890'' = Some [''7890'', ''8'', ''9'']"
    by (simp add: re_7_foo_pos_0_def match_defs)
  have g: "Regexp.groups (compile_tree re_7_foo_pos_0) = [''foo'', []]"
    "Regexp.indices (compile_tree re_7_foo_pos_0) = [1, 2]"
    by (simp_all add: re_7_foo_pos_0_def eval_defs)
  have e: "Values (compile_tree re_7_foo_pos_0) ''7890'' = Inr (Some [''foo'' \<mapsto> [''8''], [] \<mapsto> [''9'']])"
    by (simp add: Values_def compile_tree_outline(4) m g Add_def lookup_def)
  from a b e show ?thesis by (intro conjI)
qed

theorem C6_witness:
  "CompileRegexp (\<lambda>p. Inr re_7_foo_pos_0) ''^7...0$'' = Inr (compile_tree re_7_foo_pos_0) \<and>
   numbered (compiled (compile_tree re_7_foo_pos_0)) 0 = Some 2 \<and>
   FindStringSubmatch (compiled (compile_tree re_7_foo_pos_0)) ''7890'' = Some [''7890'', ''8'', ''9''] \<and>
   extracted [''foo'', []] [1, 2] [''7890'', ''8'', ''9''] [] = [''9''] \<and>
   extracted [''foo'', []] [1, 2] [''7890'', ''8'', ''9''] ''foo'' = [''8''] \<and>
   Values (compile_tree re_7_foo_pos_0) ''7a90'' = Inr None \<and>
   \<not> MatchString (compile_tree re_7_foo_pos_0) ''7a90''"
proof -
  let ?r = "compile_tree re_7_foo_pos_0"
  have c: "CompileRegexp (\<lambda>p. Inr re_7_foo_pos_0) ''^7...0$'' = Inr ?r"
    by (simp add: CompileRegexp_def)
  have n: "numbered (compiled ?r) 0 = Some 2"
    by (simp add: compile_tree_outline(4)) (simp add: re_7_foo_pos_0_def tree_defs)
  then have n': "numbered (compiled ?r) 0 \<noteq> None" by simp
  have m: "FindStringSubmatch (compiled ?r) ''7890'' = Some [''7890'', ''8'', ''9'']"
    by (simp add: compile_tree_outline(4)) (simp add: re_7_foo_pos_0_def match_defs)
  have x: "extracted [''foo'', []] [1, 2] [''7890'', ''8'', ''9''] [] = [''9'']"
    "extracted [''foo'', []] [1, 2] [''7890'', ''8'', ''9''] ''foo'' = [''8'']"
    by (simp_all add: extracted_def)
  have nm: "\<not> MatchString ?r ''7a90''"
    by (simp add: compile_tree_outline(4) MatchString_def) (simp add: re_7_foo_pos_0_def match_defs)
  from C6_Values_extracts_by_group [OF c n', of "''7a90''"] nm
  have "Values ?r ''7a90'' = Inr None" by blast
  with c n m x nm show ?thesis by (intro conjI)
qed

text \<open>
  C3. When Revert succeeds with a string, RevertValid runs the matcher on that string:
  it returns the string when the expression matches it and the RevertMismatch error
  carrying the string when it does not; when Revert fails, RevertValid returns the
  same error. The bag is left as Revert leaves it. For the pattern \<^verbatim>\<open>^1(\d+)3$\<close> and
  the bag that maps the empty key to ["a"], Revert returns "1a3", which the expression
  does not match, and RevertValid fails with RevertMismatch "1a3".
\<close>

theorem C3_RevertValid_checks_the_result:
  "(\<forall>s. fst (Revert r bag) = Inr s \<longrightarrow>
      fst (RevertValid r bag) = (if MatchString r s then Inr s else Inl (RevertMismatch s))) \<and>
   (\<forall>e. fst (Revert r bag) = Inl e \<longrightarrow> fst (RevertValid r bag) = Inl e) \<and>
   snd (RevertValid r bag) = snd (Revert r bag) \<and>
   Revert (compile_tree re_1_pos_3) [[] \<mapsto> [''a'']] = (Inr ''1a3'', [[] \<mapsto> []]) \<and>
   \<not> MatchString (compile_tree re_1_pos_3) ''1a3'' \<and>
   RevertValid (compile_tree re_1_pos_3) [[] \<mapsto> [''a'']] = (Inl (RevertMismatch ''1a3''), [[] \<mapsto> []])"
proof -
  have a: "\<forall>s. fst (Revert r bag) = Inr s \<longrightarrow>
      fst (RevertValid r bag) = (if MatchString r s then Inr s else Inl (RevertMismatch s))"
    by (auto simp add: RevertValid_def split: prod.splits sum.splits)
  have b: "\<forall>e. fst (Revert r bag) = Inl e \<longrightarrow> fst (RevertValid r bag) = Inl e"
    by (auto simp add: RevertValid_def split: prod.splits sum.splits)
  have c: "snd (RevertValid r bag) = snd (Revert r bag)"
    by (auto simp add: RevertValid_def split: prod.splits sum.splits)
  have d: "Revert (compile_tree re_1_pos_3) [[] \<mapsto> [''a'']] = (Inr ''1a3'', [[] \<mapsto> []])"
    by (auto simp add: re_1_pos_3_def eval_defs)
  have e: "\<not> MatchString (compile_tree re_1_pos_3) ''1a3''"
    by (simp add: compile_tree_outline(4) MatchString_def) (simp add: re_1_pos_3_def match_defs)
  have f: "RevertValid (compile_tree re_1_pos_3) [[] \<mapsto> [''a'']] = (Inl (RevertMismatch ''1a3''), [[] \<mapsto> []])"
    using d e by (simp add: RevertValid_def)
  from a b c d e f show ?thesis by (intro conjI)
qed

theorem C3_witness:
  "fst (Revert (compile_tree re_1_pos_3) [[] \<mapsto> [''2'']]) = Inr ''123'' \<and>
   MatchString (compile_tree re_1_pos_3) ''123'' \<and>
   fst (RevertValid (compile_tree re_1_pos_3) [[] \<mapsto> [''2'']]) = Inr ''123'' \<and>
   fst (Revert (compile_tree re_1_pos_3) Map.empty) = Inl (MissingVariable [] 1) \<and>
   fst (RevertValid (compile_tree re_1_pos_3) Map.empty) = Inl (MissingVariable [] 1)"
proof -
  let ?r = "compile_tree re_1_pos_3"
  have d: "fst (Revert ?r [[] \<mapsto> [''2'']]) = Inr ''123''"
    by (auto simp add: re_1_pos_3_def eval_defs)
  have e: "MatchString ?r ''123''"
    by (simp add: compile_tree_outline(4) MatchString_def) (simp add: re_1_pos_3_def match_defs)
  have f: "fst (Revert ?r Map.empty) = Inl (MissingVariable [] 1)"
    by (auto simp add: re_1_pos_3_def eval_defs)
  from C3_RevertValid_checks_the_result [of ?r "[[] \<mapsto> [''2'']]"] d e
  have g: "fst (RevertValid ?r [[] \<mapsto> [''2'']]) = Inr ''123''" by simp
  from C3_RevertValid_checks_the_result [of ?r Map.empty] f
  have h: "fst (RevertValid ?r Map.empty) = Inl (MissingVariable [] 1)" by blast
  from d e g f h show ?thesis by (intro conjI)
qed

section \<open>Strict slash\<close>

lemma braceIndices_loop_snoc:
  "c \<noteq> CHR ''{'' \<Longrightarrow> c \<noteq> CHR ''}'' \<Longrightarrow>
   (braceIndices_loop s1 (cs @ [c]) i lvl idx idxs = Inr r) \<longleftrightarrow>
   (braceIndices_loop s2 cs i lvl idx idxs = Inr r)"
  by (induction cs arbitrary: i lvl idx idxs) simp_all

lemma braceIndices_slash:
  "(braceIndices (tpl @ ''/'') = Inr r) \<longleftrightarrow> (braceIndices tpl = Inr r)"
  using braceIndices_loop_snoc [of "CHR ''/''" "tpl @ ''/''" tpl 0 0 0 "[]" r tpl]
  by (simp add: braceIndices_def)

lemma gorillaPattern_path:
  "(gorillaPattern tpl False False strict = Inr p) \<longleftrightarrow>
   (\<exists>idxs pattern end raw.
      braceIndices tpl = Inr idxs \<and>
      gorillaPattern_loop (if strict \<and> HasSuffix tpl ''/'' then take (length tpl - 1) tpl else tpl)
         ''[^/]+'' idxs 0 ''^'' = Inr (pattern, end) \<and>
      slice (if strict \<and> HasSuffix tpl ''/'' then take (length tpl - 1) tpl else tpl) end
         (int (length (if strict \<and> HasSuffix tpl ''/'' then take (length tpl - 1) tpl else tpl))) = Inr raw \<and>
      p = pattern @ QuoteMeta raw @ (if strict then ''[/]?'' else []) @ ''$'')"
  by (auto simp add: gorillaPattern_def Let_def split: sum.splits prod.splits)

text \<open>
  C9. In path mode with strict slash, the translation of a template that ends in a
  slash is the translation, without strict slash, of the template without that slash,
  with \<^verbatim>\<open>[/]?\<close> put before the end anchor. The template \<^verbatim>\<open>/a/\<close> translates to
  \<^verbatim>\<open>^/a[/]?$\<close>, and the expression compiled from it matches both "/a" and "/a/".
\<close>

theorem C9_strict_slash:
  "((gorillaPattern (tpl @ ''/'') False False True = Inr p) \<longleftrightarrow>
      (\<exists>body. gorillaPattern tpl False False False = Inr (body @ ''$'') \<and> p = body @ ''[/]?$'')) \<and>
   gorillaPattern ''/a/'' False False True = Inr ''^/a[/]?$'' \<and>
   (parse ''^/a[/]?$'' = Inr re_strict_a \<longrightarrow>
      (\<exists>m. NewGorillaPath parse ''/a/'' True = Inr m \<and>
           MatchString (regexp m) ''/a'' \<and> MatchString (regexp m) ''/a/''))"
proof -
  have suf: "HasSuffix (tpl @ ''/'') ''/''" by (simp add: HasSuffix_def)
  have a: "(gorillaPattern (tpl @ ''/'') False False True = Inr p) \<longleftrightarrow>
      (\<exists>body. gorillaPattern tpl False False False = Inr (body @ ''$'') \<and> p = body @ ''[/]?$'')"
    unfolding gorillaPattern_path braceIndices_slash using suf by auto
  have b: "gorillaPattern ''/a/'' False False True = Inr ''^/a[/]?$''"
    by (simp add: gorillaPattern_def braceIndices_def HasSuffix_def slice_def QuoteMeta_def
        specialBytes_def)
  have c: "parse ''^/a[/]?$'' = Inr re_strict_a \<longrightarrow>
      (\<exists>m. NewGorillaPath parse ''/a/'' True = Inr m \<and>
           MatchString (regexp m) ''/a'' \<and> MatchString (regexp m) ''/a/'')"
  proof
    assume q: "parse ''^/a[/]?$'' = Inr re_strict_a"
    let ?m = "\<lparr>regexp = compile_tree re_strict_a, pattern = ''/a/'', strictSlash = True\<rparr>"
    have n: "NewGorillaPath parse ''/a/'' True = Inr ?m"
      by (simp add: NewGorillaPath_def b CompileRegexp_def q)
    have m1: "MatchString (compile_tree re_strict_a) ''/a''"
      by (simp add: compile_tree_outline(4) MatchString_def) (simp add: re_strict_a_def match_defs)
    have m2: "MatchString (compile_tree re_strict_a) ''/a/''"
      by (simp add: compile_tree_outline(4) MatchString_def) (simp add: re_strict_a_def match_defs)
    from n m1 m2
    show "\<exists>m. NewGorillaPath parse ''/a/'' True = Inr m \<and>
           MatchString (regexp m) ''/a'' \<and> MatchString (regexp m) ''/a/''"
      by (intro exI [of _ ?m]) simp
  qed
  from a b c show ?thesis by (intro conjI)
qed

theorem C9_witness:
  "gorillaPattern ''/{id}/'' False False True = Inr ''^/(?P<id>[^/]+)[/]?$'' \<and>
   gorillaPattern ''/{id}'' False False False = Inr ''^/(?P<id>[^/]+)$'' \<and>
   (\<exists>m. NewGorillaPath (\<lambda>p. Inr re_strict_a) ''/a/'' True = Inr m \<and>
        MatchString (regexp m) ''/a'' \<and> MatchString (regexp m) ''/a/'' \<and>
        \<not> MatchString (regexp m) ''/a//'')"
proof -
  have f: "gorillaPattern ''/{id}'' False False False = Inr (''^/(?P<id>[^/]+)'' @ ''$'')"
    by (simp add: gorillaPattern_def braceIndices_def HasSuffix_def slice_def QuoteMeta_def
        specialBytes_def SplitN2_def)
  note T = C9_strict_slash [of "''/{id}''" "''^/(?P<id>[^/]+)[/]?$''" "\<lambda>p. Inr re_strict_a"]
  from T f have g: "gorillaPattern (''/{id}'' @ ''/'') False False True = Inr ''^/(?P<id>[^/]+)[/]?$''"
    by auto
  from T obtain m where m: "NewGorillaPath (\<lambda>p. Inr re_strict_a) ''/a/'' True = Inr m"
    "MatchString (regexp m) ''/a''" "MatchString (regexp m) ''/a/''"
    by auto
  from m(1) have r: "regexp m = compile_tree re_strict_a"
    by (auto simp add: NewGorillaPath_def CompileRegexp_def split: sum.splits)
  have "\<not> MatchString (compile_tree re_strict_a) ''/a//''"
    by (simp add: compile_tree_outline(4) MatchString_def) (simp add: re_strict_a_def match_defs)
  with m r have "\<exists>m. NewGorillaPath (\<lambda>p. Inr re_strict_a) ''/a/'' True = Inr m \<and>
        MatchString (regexp m) ''/a'' \<and> MatchString (regexp m) ''/a/'' \<and>
        \<not> MatchString (regexp m) ''/a//''"
    by (intro exI [of _ m]) simp
  with f g show ?thesis by simp
qed

section \<open>The round trip\<close>

lemma reach_refl: "reach C st st"
  by (simp add: reach_def)

lemma reach_trans: "reach C st st1 \<Longrightarrow> reach D st1 st2 \<Longrightarrow> reach (C \<union> D) st st2"
  by (auto simp add: reach_def)

lemma reach_mono: "reach C st st' \<Longrightarrow> C \<subseteq> D \<Longrightarrow> reach D st st'"
  by (auto simp add: reach_def)

lemma ms_reach:
  "st' \<in> set (ms re s st) \<Longrightarrow> reach (caps_of re) st st'"
  "st' \<in> set (ms_seq subs s st) \<Longrightarrow> reach (caps_of_list subs) st st'"
  "st' \<in> set (ms_alt subs s st) \<Longrightarrow> reach (caps_of_list subs) st st'"
  "st' \<in> set (ms_rep subs lazy n m s st) \<Longrightarrow> reach (caps_of_list subs) st st'"
proof (induction re s st and subs s st and subs s st and subs lazy n m s st
    arbitrary: st' and st' and st' and st' rule: ms_ms_seq_ms_alt_ms_rep.induct)
  case (1 op fl subs runes mn mx cp name s st)
  show ?case
  proof (cases op)
    case OpCapture
    with "1.prems" obtain st1 where st1: "st1 \<in> set (ms_seq subs s st)"
      and eq: "st' = (fst st1, (snd st1)(cp \<mapsto> (fst st, fst st1)))"
      by auto
    from "1.IH"(1) [OF OpCapture st1] have "reach (caps_of_list subs) st st1" .
    with eq OpCapture show ?thesis by (auto simp add: reach_def)
  next
    case OpStar
    with "1.prems" "1.IH"(2) [OF OpStar] show ?thesis by simp
  next
    case OpPlus
    with "1.prems" "1.IH"(3) [OF OpPlus] show ?thesis by simp
  next
    case OpQuest
    with "1.prems" "1.IH"(4) [OF OpQuest] show ?thesis by simp
  next
    case OpRepeat
    with "1.prems" "1.IH"(5) [OF OpRepeat] show ?thesis by simp
  next
    case OpConcat
    with "1.prems" "1.IH"(6) [OF OpConcat] show ?thesis by simp
  next
    case OpAlternate
    with "1.prems" "1.IH"(7) [OF OpAlternate] show ?thesis by simp
  qed (use "1.prems" in \<open>auto simp add: reach_def step_char_def assert_def split: if_splits\<close>)
next
  case (2 s st)
  then show ?case by (simp add: reach_refl)
next
  case (3 r rs s st)
  from "3.prems" obtain st1 where a: "st1 \<in> set (ms r s st)" and b: "st' \<in> set (ms_seq rs s st1)"
    by auto
  from reach_trans [OF "3.IH"(1) [OF a] "3.IH"(2) [OF a b]] show ?case by simp
next
  case (4 s st)
  then show ?case by simp
next
  case (5 r rs s st)
  from "5.prems" have "st' \<in> set (ms r s st) \<or> st' \<in> set (ms_alt rs s st)" by simp
  then show ?case
  proof
    assume "st' \<in> set (ms r s st)"
    from reach_mono [OF "5.IH"(1) [OF this]] show ?thesis by simp
  next
    assume "st' \<in> set (ms_alt rs s st)"
    from reach_mono [OF "5.IH"(2) [OF this]] show ?thesis by simp
  qed
next
  case (6 subs lazy n m s st)
  from "6.prems" have "st' = st \<or>
     (m \<noteq> Some 0 \<and> (\<exists>st1\<in>set (ms_seq subs s st).
        (0 < n \<or> m \<noteq> None \<or> (fst st < fst st1 \<and> fst st1 \<le> length s)) \<and>
        st' \<in> set (ms_rep subs lazy (n - 1) (map_option (\<lambda>k. k - 1) m) s st1)))"
    unfolding ms_rep.simps [of subs lazy n m s st]
    by (auto simp add: Let_def split: if_splits)
  then show ?case
  proof
    assume "st' = st"
    then show ?thesis by (simp add: reach_refl)
  next
    assume "m \<noteq> Some 0 \<and> (\<exists>st1\<in>set (ms_seq subs s st).
        (0 < n \<or> m \<noteq> None \<or> (fst st < fst st1 \<and> fst st1 \<le> length s)) \<and>
        st' \<in> set (ms_rep subs lazy (n - 1) (map_option (\<lambda>k. k - 1) m) s st1))"
    then obtain st1 where m0: "m \<noteq> Some 0" and a: "st1 \<in> set (ms_seq subs s st)"
      and c: "0 < n \<or> m \<noteq> None \<or> (fst st < fst st1 \<and> fst st1 \<le> length s)"
      and b: "st' \<in> set (ms_rep subs lazy (n - 1) (map_option (\<lambda>k. k - 1) m) s st1)"
      by blast
    from reach_trans [OF "6.IH"(1) [OF m0 a] "6.IH"(2) [OF m0 a c b]] show ?thesis by simp
  qed
qed

lemma numbered_caps:
  "numbered re n = Some m \<Longrightarrow> caps_of re \<subseteq> {k. n < k \<and> k \<le> m}"
  "numbered_list subs n = Some m \<Longrightarrow> caps_of_list subs \<subseteq> {k. n < k \<and> k \<le> m}"
proof (induction re n and subs n arbitrary: m and m rule: numbered_numbered_list.induct)
  case (1 op fl subs runes mn mx cp name n)
  show ?case
  proof (cases "op = OpCapture")
    case True
    with "1.prems" have c: "cp = Suc n" and l: "numbered_list subs (Suc n) = Some m"
      by (simp_all split: if_splits)
    from "1.IH"(1) [OF True c l] numbered_mono(2) [OF l] True c show ?thesis by auto
  next
    case False
    with "1.prems" have l: "numbered_list subs n = Some m" by simp
    from "1.IH"(2) [OF False l] False show ?thesis by auto
  qed
next
  case (2 n)
  then show ?case by simp
next
  case (3 sub subs n)
  from "3.prems" obtain k where k: "numbered sub n = Some k" and l: "numbered_list subs k = Some m"
    by (auto split: option.splits)
  from "3.IH"(1) [OF k] "3.IH"(2) [OF k l] numbered_mono(1) [OF k] numbered_mono(2) [OF l]
  show ?case by auto
qed

lemma outer_caps_subset:
  "set (outer_caps re) \<subseteq> caps_of re"
  "set (outer_caps_list subs) \<subseteq> caps_of_list subs"
  by (induction re and subs rule: outer_caps_outer_caps_list.induct)
     (auto split: Op.splits)

lemma pieces_cong:
  "\<forall>k\<in>set (outer_caps re). f k = g k \<Longrightarrow> pieces re f = pieces re g"
  "\<forall>k\<in>set (outer_caps_list subs). f k = g k \<Longrightarrow> pieces_list subs f = pieces_list subs g"
  by (induction re and subs rule: outer_caps_outer_caps_list.induct)
     (auto split: Op.splits)

lemma take_drop_split:
  "i \<le> k \<Longrightarrow> k \<le> j \<Longrightarrow>
   take (j - i) (drop i s) = take (k - i) (drop i s) @ take (j - k) (drop k (s::string))"
proof -
  assume a: "i \<le> k" "k \<le> j"
  then have "j - i = (k - i) + (j - k)" by simp
  then have "take (j - i) (drop i s) = take (k - i) (drop i s) @ take (j - k) (drop (k - i) (drop i s))"
    by (simp only: take_add)
  also have "drop (k - i) (drop i s) = drop k s" using a by simp
  finally show ?thesis .
qed

lemma ms_plain:
  "plain re \<Longrightarrow> numbered re n = Some m \<Longrightarrow> st' \<in> set (ms re s st) \<Longrightarrow>
   take (fst st' - fst st) (drop (fst st) s) = pieces re (text_of s (snd st'))"
  "plain_list subs \<Longrightarrow> numbered_list subs n = Some m \<Longrightarrow> st' \<in> set (ms_seq subs s st) \<Longrightarrow>
   take (fst st' - fst st) (drop (fst st) s) = pieces_list subs (text_of s (snd st'))"
proof (induction re and subs arbitrary: n m st st' and n m st st' rule: plain_plain_list.induct)
  case (1 op fl subs runes mn mx cp name)
  show ?case
  proof (cases op)
    case OpLiteral
    with "1.prems" show ?thesis
      by (auto simp add: literal_at_def split: if_splits)
  next
    case OpCapture
    with "1.prems" obtain st1 where st1: "st1 \<in> set (ms_seq subs s st)"
      and eq: "st' = (fst st1, (snd st1)(cp \<mapsto> (fst st, fst st1)))"
      by auto
    with OpCapture show ?thesis by (simp add: text_of_def submatch_def)
  next
    case OpConcat
    from "1.prems" OpConcat have p: "plain_list subs" and q: "numbered_list subs n = Some m"
      and r: "st' \<in> set (ms_seq subs s st)"
      by simp_all
    from "1.IH" [OF OpConcat p q r] OpConcat show ?thesis by simp
  qed (use "1.prems" in \<open>auto simp add: assert_def split: if_splits\<close>)
next
  case 2
  then show ?case by simp
next
  case (3 sub subs)
  from "3.prems"(2) obtain k where k: "numbered sub n = Some k" and l: "numbered_list subs k = Some m"
    by (auto split: option.splits)
  from "3.prems"(3) obtain st1 where a: "st1 \<in> set (ms sub s st)" and b: "st' \<in> set (ms_seq subs s st1)"
    by auto
  from "3.prems"(1) have p1: "plain sub" and p2: "plain_list subs" by simp_all
  note r1 = ms_reach(1) [OF a]
  note r2 = ms_reach(2) [OF b]
  have i1: "take (fst st1 - fst st) (drop (fst st) s) = pieces sub (text_of s (snd st1))"
    by (rule "3.IH"(1) [OF p1 k a])
  have i2: "take (fst st' - fst st1) (drop (fst st1) s) = pieces_list subs (text_of s (snd st'))"
    by (rule "3.IH"(2) [OF p2 l b])
  have "\<forall>j\<in>set (outer_caps sub). text_of s (snd st1) j = text_of s (snd st') j"
  proof
    fix j assume "j \<in> set (outer_caps sub)"
    with outer_caps_subset(1) [of sub] numbered_caps(1) [OF k] have "j \<le> k" by auto
    with numbered_caps(2) [OF l] have "j \<notin> caps_of_list subs" by auto
    with r2 show "text_of s (snd st1) j = text_of s (snd st') j"
      by (simp add: reach_def text_of_def)
  qed
  from pieces_cong(1) [OF this] i1
  have i1': "take (fst st1 - fst st) (drop (fst st) s) = pieces sub (text_of s (snd st'))" by simp
  have "fst st \<le> fst st1" "fst st1 \<le> fst st'" using r1 r2 by (simp_all add: reach_def)
  from take_drop_split [OF this, of s] i1' i2 show ?case by simp
qed

lemma Sprintf_outline:
  "Sprintf (fmt_of (outline re idx) @ g) (map f (outer_caps re) @ ys) = pieces re f @ Sprintf g ys"
  "Sprintf (fmt_of (outline_list subs idx) @ g) (map f (outer_caps_list subs) @ ys)
     = pieces_list subs f @ Sprintf g ys"
proof (induction re idx and subs idx arbitrary: g ys and g ys rule: outline_outline_list.induct)
  case (1 op fl subs runes mn mx cp name idx)
  then show ?case by (cases op) (simp_all add: Sprintf_write_runes)
next
  case (2 idx)
  then show ?case by simp
next
  case (3 sub subs idx)
  have "Sprintf (fmt_of (outline_list (sub # subs) idx) @ g) (map f (outer_caps_list (sub # subs)) @ ys)
      = Sprintf (fmt_of (outline sub idx) @ (fmt_of (outline_list subs (idx + visited_caps sub)) @ g))
          (map f (outer_caps sub) @ (map f (outer_caps_list subs) @ ys))"
    by (simp add: fmt_of_append)
  also have "\<dots> = pieces sub f @ Sprintf (fmt_of (outline_list subs (idx + visited_caps sub)) @ g)
          (map f (outer_caps_list subs) @ ys)"
    by (rule "3.IH"(1))
  also have "\<dots> = pieces sub f @ pieces_list subs f @ Sprintf g ys"
    by (simp only: "3.IH"(2))
  finally show ?case by simp
qed

lemma length_outer_caps:
  "length (outer_caps re) = length (seg_names (outline re idx))"
  "length (outer_caps_list subs) = length (seg_names (outline_list subs idx))"
  by (induction re idx and subs idx rule: outline_outline_list.induct)
     (auto simp add: seg_names_append split: Op.splits)

lemma Revert_loop_queue:
  "\<forall>key. lookup bag key = map snd (filter (\<lambda>p. fst p = key) (zip gs ts)) \<Longrightarrow>
   length ts = length gs \<Longrightarrow> fst (Revert_loop gs n vars bag) = Inr (vars @ ts)"
proof (induction gs arbitrary: ts vars bag)
  case Nil
  then show ?case by simp
next
  case (Cons g gs)
  from Cons.prems(2) obtain t ts' where ts: "ts = t # ts'" and len: "length ts' = length gs"
    by (cases ts) auto
  from Cons.prems(1) ts
  have l: "lookup bag g = t # map snd (filter (\<lambda>p. fst p = g) (zip gs ts'))" by simp
  have "\<forall>key. lookup (bag(g \<mapsto> map snd (filter (\<lambda>p. fst p = g) (zip gs ts')))) key
      = map snd (filter (\<lambda>p. fst p = key) (zip gs ts'))"
    using Cons.prems(1) ts by (auto simp add: lookup_upd)
  from Cons.IH [OF this len]
  have ih: "fst (Revert_loop gs n (vars @ [t]) (bag(g \<mapsto> map snd (filter (\<lambda>p. fst p = g) (zip gs ts')))))
      = Inr ((vars @ [t]) @ ts')" .
  show ?case unfolding ts by (simp add: l ih)
qed

lemma find_from_Some:
  "find_from re s is = Some (i, st) \<Longrightarrow> st \<in> set (ms re s (i, Map.empty))"
  by (induction "is") (auto split: list.splits)

text \<open>
  C1. The round trip as the claim states it, for every accepted pattern and every text
  the pattern matches, does not hold: the pattern \<^verbatim>\<open>a(b)\<close> matches "xab", extraction
  gives the bag that maps the empty key to ["b"], and Revert of that bag returns "ab".
\<close>

theorem C1_counterexample:
  "MatchString (compile_tree re_a_group_b) ''xab'' \<and>
   Values (compile_tree re_a_group_b) ''xab'' = Inr (Some [[] \<mapsto> [''b'']]) \<and>
   Revert (compile_tree re_a_group_b) [[] \<mapsto> [''b'']] = (Inr ''ab'', [[] \<mapsto> []]) \<and>
   ''ab'' \<noteq> ''xab''"
proof -
  have m: "FindStringSubmatch re_a_group_b ''xab'' = Some [''ab'', ''b'']"
    by (simp add: re_a_group_b_def match_defs)
  have g: "Regexp.groups (compile_tree re_a_group_b) = [[]]"
    "Regexp.indices (compile_tree re_a_group_b) = [1]"
    by (simp_all add: re_a_group_b_def eval_defs)
  have a: "MatchString (compile_tree re_a_group_b) ''xab''"
    by (simp add: MatchString_def compile_tree_outline(4) m)
  have b: "Values (compile_tree re_a_group_b) ''xab'' = Inr (Some [[] \<mapsto> [''b'']])"
    by (simp add: Values_def compile_tree_outline(4) m g Add_def lookup_def)
  have c: "Revert (compile_tree re_a_group_b) [[] \<mapsto> [''b'']] = (Inr ''ab'', [[] \<mapsto> []])"
    by (auto simp add: re_a_group_b_def eval_defs)
  from a b c show ?thesis by simp
qed

text \<open>
  C1, amended. The round trip holds for every accepted pattern whose tree, outside its
  capturing groups, consists of literals that are not case-folded, capturing groups,
  concatenations and empty-width assertions, whose groups are numbered as the parser
  numbers them and whose index list holds the numbers of its outermost groups, and for
  every text of which the match found is the whole: extraction then succeeds, and
  Revert of the bag it returns gives the text back.
\<close>

theorem C1_round_trip_amended:
  "CompileRegexp parse pat = Inr r \<Longrightarrow> plain (compiled r) \<Longrightarrow>
   numbered (compiled r) 0 \<noteq> None \<Longrightarrow>
   Regexp.indices r = map int (outer_caps (compiled r)) \<Longrightarrow>
   FindStringSubmatch (compiled r) s = Some mt \<Longrightarrow> mt ! 0 = s \<Longrightarrow>
   \<exists>bag. Values r s = Inr (Some bag) \<and> fst (Revert r bag) = Inr s"
proof -
  assume c: "CompileRegexp parse pat = Inr r" and pl: "plain (compiled r)"
    and nu: "numbered (compiled r) 0 \<noteq> None"
    and ix: "Regexp.indices r = map int (outer_caps (compiled r))"
    and f: "FindStringSubmatch (compiled r) s = Some mt" and whole: "mt ! 0 = s"
  from c obtain re where r: "r = compile_tree re"
    by (auto simp add: CompileRegexp_def split: sum.splits)
  have cr: "compiled r = re" by (simp add: r compile_tree_outline)
  from nu obtain m where m: "numbered re 0 = Some m" by (auto simp add: cr)
  let ?gs = "Regexp.groups r"
  let ?ixs = "Regexp.indices r"
  from f obtain i st where ff: "find_from re s [0..<Suc (length s)] = Some (i, st)"
    and mt: "mt = map (\<lambda>k. submatch s (((snd st)(0 \<mapsto> (i, fst st))) k)) [0..<Suc (MaxCap re)]"
    by (auto simp add: FindStringSubmatch_def cr split: option.splits prod.splits)
  from find_from_Some [OF ff] have st: "st \<in> set (ms re s (i, Map.empty))" .
  from ms_plain(1) [OF _ m st] pl
  have cons: "take (fst st - i) (drop i s) = pieces re (text_of s (snd st))"
    by (simp add: cr)
  have m0: "mt ! 0 = take (fst st - i) (drop i s)"
    unfolding mt by (simp add: submatch_def nth_map_upt del: upt_Suc)
  \<comment> \<open>the texts that extraction reads\<close>
  have caps_rng: "\<forall>k\<in>set (outer_caps re). 0 < k \<and> k \<le> MaxCap re"
  proof
    fix k assume k: "k \<in> set (outer_caps re)"
    with outer_caps_subset(1) [of re] numbered_caps(1) [OF m] have b: "0 < k \<and> k \<le> m" by auto
    with numbered_mono(1) [OF m] show "0 < k \<and> k \<le> MaxCap re" by (auto split: if_splits)
  qed
  have texts: "map (\<lambda>ix. mt ! nat ix) ?ixs = map (text_of s (snd st)) (outer_caps re)"
  proof -
    have "\<forall>k\<in>set (outer_caps re). mt ! k = text_of s (snd st) k"
    proof
      fix k assume "k \<in> set (outer_caps re)"
      with caps_rng have "0 < k" "k < Suc (MaxCap re)" by auto
      then show "mt ! k = text_of s (snd st) k"
        unfolding mt by (simp add: text_of_def nth_map_upt del: upt_Suc)
    qed
    then show ?thesis by (simp add: ix cr comp_def)
  qed
  \<comment> \<open>extraction succeeds\<close>
  have len: "length mt = Suc (MaxCap re)" unfolding mt by simp
  have rng: "\<forall>ix\<in>set ?ixs. 0 \<le> ix \<and> nat ix < length mt"
    using caps_rng len by (auto simp add: ix cr)
  have le: "length ?gs = length ?ixs"
    by (simp add: r compile_tree_outline length_seg_indices)
  then have le': "length ?gs \<le> length ?ixs" by simp
  from Values_loop_total [OF le' rng, of Map.empty]
  obtain bag where bag: "Values_loop ?gs ?ixs mt Map.empty = Inr bag" by blast
  have v: "Values r s = Inr (Some bag)" using f bag by (simp add: Values_def)
  \<comment> \<open>reversion pops the texts in the order of the groups\<close>
  have q: "\<forall>key. lookup bag key
      = map snd (filter (\<lambda>p. fst p = key) (zip ?gs (map (\<lambda>ix. mt ! nat ix) ?ixs)))"
    using Values_loop_extracted [OF bag] by (simp add: lookup_def extracted_def)
  have "fst (Revert_loop ?gs (length ?gs) [] bag) = Inr ([] @ map (\<lambda>ix. mt ! nat ix) ?ixs)"
    by (rule Revert_loop_queue [OF q]) (simp add: le)
  then have rl: "fst (Revert_loop ?gs (length ?gs) [] bag) = Inr (map (text_of s (snd st)) (outer_caps re))"
    by (simp add: texts)
  have "fst (Revert r bag) = Inr (Sprintf (template r) (map (text_of s (snd st)) (outer_caps re)))"
    using rl by (cases "Revert_loop ?gs (length ?gs) [] bag") (auto simp add: Revert_def)
  also have "Sprintf (template r) (map (text_of s (snd st)) (outer_caps re))
      = pieces re (text_of s (snd st))"
    using Sprintf_outline(1) [of re 0 "[]" "text_of s (snd st)" "[]"]
    by (simp add: r compile_tree_outline)
  also have "\<dots> = s" using cons m0 whole by simp
  finally have "fst (Revert r bag) = Inr s" .
  with v show ?thesis by blast
qed

theorem C1_witness:
  "CompileRegexp (\<lambda>p. Inr re_7_foo_pos_0) ''^7...0$'' = Inr (compile_tree re_7_foo_pos_0) \<and>
   plain (compiled (compile_tree re_7_foo_pos_0)) \<and>
   numbered (compiled (compile_tree re_7_foo_pos_0)) 0 = Some 2 \<and>
   Regexp.indices (compile_tree re_7_foo_pos_0) = map int (outer_caps (compiled (compile_tree re_7_foo_pos_0))) \<and>
   FindStringSubmatch (compiled (compile_tree re_7_foo_pos_0)) ''7890'' = Some [''7890'', ''8'', ''9''] \<and>
   (\<exists>bag. Values (compile_tree re_7_foo_pos_0) ''7890'' = Inr (Some bag) \<and>
          fst (Revert (compile_tree re_7_foo_pos_0) bag) = Inr ''7890'')"
proof -
  let ?r = "compile_tree re_7_foo_pos_0"
  have cr: "compiled ?r = re_7_foo_pos_0" by (simp add: compile_tree_outline)
  have c: "CompileRegexp (\<lambda>p. Inr re_7_foo_pos_0) ''^7...0$'' = Inr ?r"
    by (simp add: CompileRegexp_def)
  have p: "plain (compiled ?r)"
    unfolding cr by (simp add: re_7_foo_pos_0_def tree_defs)
  have n: "numbered (compiled ?r) 0 = Some 2"
    unfolding cr by (simp add: re_7_foo_pos_0_def tree_defs)
  then have n': "numbered (compiled ?r) 0 \<noteq> None" by simp
  have i: "Regexp.indices ?r = map int (outer_caps (compiled ?r))"
    unfolding cr by (simp add: re_7_foo_pos_0_def eval_defs)
  have m: "FindStringSubmatch (compiled ?r) ''7890'' = Some [''7890'', ''8'', ''9'']"
    unfolding cr by (simp add: re_7_foo_pos_0_def match_defs)
  have w: "[''7890'', ''8'', ''9''] ! 0 = ''7890''" by simp
  from C1_round_trip_amended [OF c p n' i m w] c p n i m
  show ?thesis by (intro conjI)
qed

end
